theory Spec2Isabelle
  imports Main "HOL-Library.Word"
begin

unbundle bit_operations_syntax

section \<open>compact\_bitset: the data model\<close>

text \<open>
  The class template \<open>compact_bitset<N, T>\<close> of \<open>compact_bitset.h\<close> has two parameters:
  the capacity \<open>N\<close> and the unsigned backing word type \<open>T\<close>. The word type is the type
  variable \<open>'a::len\<close> (\<open>T\<close> is \<open>'a word\<close>, \<open>sizeof(T) * 8\<close> is \<open>LENGTH('a)\<close>), the capacity
  is an explicit first argument \<open>N\<close> of every operation, and the only data member,
  \<open>std::array<T, NWords> data\<close>, is an \<open>'a word list\<close>. Every statement proved for all
  \<open>'a\<close> and all \<open>N\<close> covers the default choice of \<open>T\<close> below.

  C++ promotes \<open>uint8_t\<close> and \<open>uint16_t\<close> operands to \<open>int\<close> before \<open>|\<close>, \<open>&\<close>, \<open>~\<close> and
  \<open><<\<close>, and converts back on assignment to \<open>T\<close>. All shift counts in the class are below
  \<open>TBits\<close>, so the value stored is the one word arithmetic on \<open>'a word\<close> gives.
  Bit indices, word indices and shift amounts (\<open>std::size_t\<close>) are natural numbers.
\<close>

datatype error = OutOfRange | InvalidArgument | Overflow

text \<open>The default template argument for \<open>T\<close>: 8, 16, 32 or 64 bits.\<close>

definition default_TBits :: "nat \<Rightarrow> nat" where
  "default_TBits N =
     (if N \<le> 8 then 8 else if N \<le> 16 then 16 else if N \<le> 32 then 32 else 64)"

definition TBits :: "'a::len itself \<Rightarrow> nat" where
  "TBits T = LENGTH('a)"

definition NFullyUsedWords :: "'a::len itself \<Rightarrow> nat \<Rightarrow> nat" where
  "NFullyUsedWords T N = N div TBits T"

definition NBitsRem :: "'a::len itself \<Rightarrow> nat \<Rightarrow> nat" where
  "NBitsRem T N = N mod TBits T"

definition NWords :: "'a::len itself \<Rightarrow> nat \<Rightarrow> nat" where
  "NWords T N = NFullyUsedWords T N + (if NBitsRem T N \<noteq> 0 then 1 else 0)"

definition AllMask :: "'a::len word" where
  "AllMask = NOT 0"

definition LastWordMask :: "nat \<Rightarrow> 'a::len word" where
  "LastWordMask N = push_bit (NBitsRem TYPE('a) N) 1 - 1"

text \<open>A counting loop \<open>for (i = i0; i < n; ++i) body\<close> over a state \<open>s\<close>.\<close>

function for_loop :: "nat \<Rightarrow> nat \<Rightarrow> (nat \<Rightarrow> 's \<Rightarrow> 's) \<Rightarrow> 's \<Rightarrow> 's" where
  "for_loop i n body s = (if i < n then for_loop (Suc i) n body (body i s) else s)"
  by pat_completeness auto
termination
  by (relation "measure (\<lambda>(i, n, body, s). n - i)") auto

declare for_loop.simps [simp del]

subsection \<open>The bit reference proxy\<close>

text \<open>
  A \<open>reference\<close> holds a reference to one word of \<open>data\<close> and a bit position; here it is
  the pair of the word's index and the bit position. \<open>make_ref\<close> does no bounds check:
  \<open>data[i / TBits]\<close> is only defined for \<open>i / TBits < NWords\<close>, which every caller inside
  the class guarantees.
\<close>

type_synonym reference = "nat \<times> nat"

definition make_ref :: "'a::len itself \<Rightarrow> nat \<Rightarrow> reference" where
  "make_ref T i = (i div TBits T, i mod TBits T)"

definition ref_assign :: "'a::len word list \<Rightarrow> reference \<Rightarrow> bool \<Rightarrow> 'a word list" where
  "ref_assign data r b =
     (case r of (w, bpos) \<Rightarrow>
        data[w := (if b then data ! w OR push_bit bpos 1
                   else data ! w AND NOT (push_bit bpos 1))])"

definition ref_bool :: "'a::len word list \<Rightarrow> reference \<Rightarrow> bool" where
  "ref_bool data r = (case r of (w, bpos) \<Rightarrow> drop_bit bpos (data ! w) AND 1 \<noteq> 0)"

definition ref_flip :: "'a::len word list \<Rightarrow> reference \<Rightarrow> 'a word list" where
  "ref_flip data r = ref_assign data r (\<not> ref_bool data r)"

definition ref_not :: "'a::len word list \<Rightarrow> reference \<Rightarrow> bool" where
  "ref_not data r = (\<not> ref_bool data r)"

text \<open>\<open>operator[]\<close>, read (\<open>x[pos]\<close>) and assignment through the proxy (\<open>x[pos] = b\<close>).\<close>

definition op_index :: "'a::len word list \<Rightarrow> nat \<Rightarrow> bool" where
  "op_index data pos = ref_bool data (make_ref TYPE('a) pos)"

definition op_index_assign :: "'a::len word list \<Rightarrow> nat \<Rightarrow> bool \<Rightarrow> 'a word list" where
  "op_index_assign data pos b = ref_assign data (make_ref TYPE('a) pos) b"

definition throw_if_out_of_range :: "nat \<Rightarrow> nat \<Rightarrow> error option" where
  "throw_if_out_of_range N pos = (if pos \<ge> N then Some OutOfRange else None)"

subsection \<open>Construction and single-bit operations\<close>

text \<open>The default constructor value-initialises \<open>data\<close>: every word is 0.\<close>

definition compact_bitset :: "nat \<Rightarrow> 'a::len word list" where
  "compact_bitset N = replicate (NWords TYPE('a) N) 0"

definition test :: "nat \<Rightarrow> 'a::len word list \<Rightarrow> nat \<Rightarrow> error + bool" where
  "test N data pos =
     (case throw_if_out_of_range N pos of Some e \<Rightarrow> Inl e
      | None \<Rightarrow> Inr (op_index data pos))"

definition set_pos :: "nat \<Rightarrow> 'a::len word list \<Rightarrow> nat \<Rightarrow> bool \<Rightarrow> error + 'a word list" where
  "set_pos N data pos v =
     (case throw_if_out_of_range N pos of Some e \<Rightarrow> Inl e
      | None \<Rightarrow> Inr (op_index_assign data pos v))"

definition reset_pos :: "nat \<Rightarrow> 'a::len word list \<Rightarrow> nat \<Rightarrow> error + 'a word list" where
  "reset_pos N data pos =
     (case throw_if_out_of_range N pos of Some e \<Rightarrow> Inl e
      | None \<Rightarrow> Inr (op_index_assign data pos False))"

definition flip_pos :: "nat \<Rightarrow> 'a::len word list \<Rightarrow> nat \<Rightarrow> error + 'a word list" where
  "flip_pos N data pos =
     (case throw_if_out_of_range N pos of Some e \<Rightarrow> Inl e
      | None \<Rightarrow> Inr (ref_flip data (make_ref TYPE('a) pos)))"

subsection \<open>Bulk queries and updates\<close>

text \<open>
  \<open>get_popcount\<close>, by the portable loop of the source (the compiler builtin returns the
  same number). The masked last word of a \<open>uint8_t\<close> or \<open>uint16_t\<close> array is an \<open>int\<close>
  with the same set bits.
\<close>

definition get_popcount :: "'a::len word \<Rightarrow> nat" where
  "get_popcount word =
     for_loop 0 LENGTH('a) (\<lambda>i ret. if word AND push_bit i 1 \<noteq> 0 then ret + 1 else ret) 0"

definition count :: "nat \<Rightarrow> 'a::len word list \<Rightarrow> nat" where
  "count N data =
     (let ret = for_loop 0 (NFullyUsedWords TYPE('a) N)
                  (\<lambda>i ret. ret + get_popcount (data ! i)) 0
      in if (LastWordMask N :: 'a word) \<noteq> 0
         then ret + get_popcount (data ! (NWords TYPE('a) N - 1) AND LastWordMask N)
         else ret)"

text \<open>
  \<open>all\<close>, \<open>any\<close> and \<open>operator==\<close> scan the fully used words with an early return and then
  look at the masked last word, at index \<open>w = NFullyUsedWords\<close>.
\<close>

function all_from :: "nat \<Rightarrow> 'a::len word list \<Rightarrow> nat \<Rightarrow> bool" where
  "all_from N data w =
     (if w < NFullyUsedWords TYPE('a) N
      then (if data ! w \<noteq> AllMask then False else all_from N data (Suc w))
      else if (LastWordMask N :: 'a word) \<noteq> 0
           \<and> data ! w AND LastWordMask N \<noteq> LastWordMask N then False
      else True)"
  by pat_completeness auto
termination
  by (relation "measure (\<lambda>(N, data, w). NFullyUsedWords TYPE('a) N - w)") auto

declare all_from.simps [simp del]

definition all :: "nat \<Rightarrow> 'a::len word list \<Rightarrow> bool" where
  "all N data = all_from N data 0"

function any_from :: "nat \<Rightarrow> 'a::len word list \<Rightarrow> nat \<Rightarrow> bool" where
  "any_from N data w =
     (if w < NFullyUsedWords TYPE('a) N
      then (if data ! w \<noteq> 0 then True else any_from N data (Suc w))
      else if (LastWordMask N :: 'a word) \<noteq> 0
           \<and> data ! w AND LastWordMask N \<noteq> 0 then True
      else False)"
  by pat_completeness auto
termination
  by (relation "measure (\<lambda>(N, data, w). NFullyUsedWords TYPE('a) N - w)") auto

declare any_from.simps [simp del]

definition any :: "nat \<Rightarrow> 'a::len word list \<Rightarrow> bool" where
  "any N data = any_from N data 0"

definition none :: "nat \<Rightarrow> 'a::len word list \<Rightarrow> bool" where
  "none N data = (\<not> any N data)"

function eq_from :: "nat \<Rightarrow> 'a::len word list \<Rightarrow> 'a word list \<Rightarrow> nat \<Rightarrow> bool" where
  "eq_from N data o_data w =
     (if w < NFullyUsedWords TYPE('a) N
      then (if data ! w \<noteq> o_data ! w then False else eq_from N data o_data (Suc w))
      else if (LastWordMask N :: 'a word) \<noteq> 0
           \<and> data ! w AND LastWordMask N \<noteq> o_data ! w AND LastWordMask N then False
      else True)"
  by pat_completeness auto
termination
  by (relation "measure (\<lambda>(N, data, o_data, w). NFullyUsedWords TYPE('a) N - w)") auto

declare eq_from.simps [simp del]

definition op_eq :: "nat \<Rightarrow> 'a::len word list \<Rightarrow> 'a word list \<Rightarrow> bool" where
  "op_eq N data o_data = eq_from N data o_data 0"

definition op_neq :: "nat \<Rightarrow> 'a::len word list \<Rightarrow> 'a word list \<Rightarrow> bool" where
  "op_neq N data o_data = (\<not> op_eq N data o_data)"

text \<open>\<open>set()\<close>, \<open>reset()\<close> and \<open>flip()\<close> on the whole bitset.\<close>

definition set_all :: "nat \<Rightarrow> 'a::len word list \<Rightarrow> 'a word list" where
  "set_all N data =
     (let d = for_loop 0 (NFullyUsedWords TYPE('a) N) (\<lambda>w d. d[w := AllMask]) data
      in if (LastWordMask N :: 'a word) \<noteq> 0
         then d[NFullyUsedWords TYPE('a) N := LastWordMask N] else d)"

text \<open>Copy assignment: \<open>if constexpr (N > 0) data = o.data\<close>.\<close>

definition op_assign :: "nat \<Rightarrow> 'a::len word list \<Rightarrow> 'a word list \<Rightarrow> 'a word list" where
  "op_assign N data o_data = (if N > 0 then o_data else data)"

definition reset_all :: "nat \<Rightarrow> 'a::len word list \<Rightarrow> 'a word list" where
  "reset_all N data = op_assign N data (compact_bitset N)"

definition flip_all :: "nat \<Rightarrow> 'a::len word list \<Rightarrow> 'a word list" where
  "flip_all N data =
     (let d = for_loop 0 (NFullyUsedWords TYPE('a) N) (\<lambda>w d. d[w := NOT (d ! w)]) data
      in if (LastWordMask N :: 'a word) \<noteq> 0
         then d[NFullyUsedWords TYPE('a) N :=
                  NOT (d ! NFullyUsedWords TYPE('a) N) AND LastWordMask N]
         else d)"

subsection \<open>Conversion to a string\<close>

definition to_string :: "nat \<Rightarrow> 'a::len word list \<Rightarrow> char \<Rightarrow> char \<Rightarrow> string" where
  "to_string N data zero one =
     for_loop 0 N (\<lambda>bit ret. if op_index data bit then ret[bit := one] else ret)
       (replicate N zero)"

subsection \<open>Bitwise operators\<close>

text \<open>
  The binary operators, both shifts and \<open>operator~\<close> start from an object built by the
  private constructor that leaves \<open>data\<close> uninitialised. Its content is the extra
  argument \<open>uninit\<close>, an arbitrary array of \<open>NWords\<close> words. The statement the source
  repeats after each of these loops, \<open>if constexpr (LastWordMask != 0)
  ret.data[NWords-1] &= LastWordMask\<close>, is \<open>mask_last_word\<close>.
\<close>

definition mask_last_word :: "nat \<Rightarrow> 'a::len word list \<Rightarrow> 'a word list" where
  "mask_last_word N ret =
     (if (LastWordMask N :: 'a word) \<noteq> 0
      then ret[NWords TYPE('a) N - 1 := ret ! (NWords TYPE('a) N - 1) AND LastWordMask N]
      else ret)"

definition op_and :: "nat \<Rightarrow> 'a::len word list \<Rightarrow> 'a word list \<Rightarrow> 'a word list \<Rightarrow> 'a word list" where
  "op_and N uninit lhs rhs =
     mask_last_word N
       (for_loop 0 N (\<lambda>i ret. op_index_assign ret i (op_index lhs i \<and> op_index rhs i)) uninit)"

definition op_or :: "nat \<Rightarrow> 'a::len word list \<Rightarrow> 'a word list \<Rightarrow> 'a word list \<Rightarrow> 'a word list" where
  "op_or N uninit lhs rhs =
     mask_last_word N
       (for_loop 0 N (\<lambda>i ret. op_index_assign ret i (op_index lhs i \<or> op_index rhs i)) uninit)"

definition op_xor :: "nat \<Rightarrow> 'a::len word list \<Rightarrow> 'a word list \<Rightarrow> 'a word list \<Rightarrow> 'a word list" where
  "op_xor N uninit lhs rhs =
     mask_last_word N
       (for_loop 0 N (\<lambda>i ret. op_index_assign ret i (op_index lhs i \<noteq> op_index rhs i)) uninit)"

text \<open>The compound forms assign the result of the binary operator to \<open>*this\<close>.\<close>

definition op_and_assign :: "nat \<Rightarrow> 'a::len word list \<Rightarrow> 'a word list \<Rightarrow> 'a word list \<Rightarrow> 'a word list" where
  "op_and_assign N uninit data rhs = op_assign N data (op_and N uninit data rhs)"

definition op_or_assign :: "nat \<Rightarrow> 'a::len word list \<Rightarrow> 'a word list \<Rightarrow> 'a word list \<Rightarrow> 'a word list" where
  "op_or_assign N uninit data rhs = op_assign N data (op_or N uninit data rhs)"

definition op_xor_assign :: "nat \<Rightarrow> 'a::len word list \<Rightarrow> 'a word list \<Rightarrow> 'a word list \<Rightarrow> 'a word list" where
  "op_xor_assign N uninit data rhs = op_assign N data (op_xor N uninit data rhs)"

text \<open>The copy constructor assigns to a default-initialised object; \<open>operator~\<close> flips a copy.\<close>

definition copy_construct :: "nat \<Rightarrow> 'a::len word list \<Rightarrow> 'a word list \<Rightarrow> 'a word list" where
  "copy_construct N uninit o_data = op_assign N uninit o_data"

definition op_not :: "nat \<Rightarrow> 'a::len word list \<Rightarrow> 'a word list \<Rightarrow> 'a word list" where
  "op_not N uninit data = flip_all N (copy_construct N uninit data)"

subsection \<open>Shifts\<close>

text \<open>
  The two loops of \<open>operator<<\<close>. The sum \<open>i + shift\<close> of the second loop is computed in
  \<open>std::size_t\<close>; it cannot wrap around: the loop stops at the first \<open>i\<close> with
  \<open>i + shift \<ge> N\<close>, so every sum it forms is at most \<open>max shift N\<close>.
\<close>

function shl_clear :: "nat \<Rightarrow> nat \<Rightarrow> nat \<Rightarrow> 'a::len word list \<Rightarrow> 'a word list" where
  "shl_clear N shift i ret =
     (if i < shift \<and> i < N then shl_clear N shift (Suc i) (op_index_assign ret i False)
      else ret)"
  by pat_completeness auto
termination
  by (relation "measure (\<lambda>(N, shift, i, ret). N - i)") auto

declare shl_clear.simps [simp del]

function shl_copy :: "nat \<Rightarrow> 'a::len word list \<Rightarrow> nat \<Rightarrow> nat \<Rightarrow> 'a word list \<Rightarrow> 'a word list" where
  "shl_copy N data shift i ret =
     (if i + shift < N
      then shl_copy N data shift (Suc i) (op_index_assign ret (i + shift) (op_index data i))
      else ret)"
  by pat_completeness auto
termination
  by (relation "measure (\<lambda>(N, data, shift, i, ret). N - (i + shift))") auto

declare shl_copy.simps [simp del]

definition op_shl :: "nat \<Rightarrow> 'a::len word list \<Rightarrow> 'a word list \<Rightarrow> nat \<Rightarrow> 'a word list" where
  "op_shl N uninit data shift =
     mask_last_word N (shl_copy N data shift 0 (shl_clear N shift 0 uninit))"

definition op_shr :: "nat \<Rightarrow> 'a::len word list \<Rightarrow> 'a word list \<Rightarrow> nat \<Rightarrow> 'a word list" where
  "op_shr N uninit data shift =
     (let endpos = (if N \<ge> shift then N - shift else 0);
          ret1 = for_loop endpos N (\<lambda>i ret. op_index_assign ret i False) uninit;
          ret2 = for_loop 0 endpos
                   (\<lambda>i ret. op_index_assign ret i (op_index data (i + shift))) ret1
      in mask_last_word N ret2)"

definition op_shl_assign :: "nat \<Rightarrow> 'a::len word list \<Rightarrow> 'a word list \<Rightarrow> nat \<Rightarrow> 'a word list" where
  "op_shl_assign N uninit data shift = op_assign N data (op_shl N uninit data shift)"

definition op_shr_assign :: "nat \<Rightarrow> 'a::len word list \<Rightarrow> 'a word list \<Rightarrow> nat \<Rightarrow> 'a word list" where
  "op_shr_assign N uninit data shift = op_assign N data (op_shr N uninit data shift)"

subsection \<open>Find-first-set\<close>

text \<open>
  \<open>ffs\<close> returns one plus the index of the lowest set bit, 0 for the zero word. The model
  is the portable loop of the source; \<open>__builtin_ffs\<close> and its variants return the same.
\<close>

function ffs_from :: "'a::len word \<Rightarrow> nat \<Rightarrow> int" where
  "ffs_from word i =
     (if i < LENGTH('a)
      then (if word AND push_bit i 1 \<noteq> 0 then int i + 1 else ffs_from word (Suc i))
      else 0)"
  by pat_completeness auto
termination
  by (relation "measure (\<lambda>(word, i). LENGTH('a) - i)") auto

declare ffs_from.simps [simp del]

definition ffs :: "'a::len word \<Rightarrow> int" where
  "ffs word = (if word \<noteq> 0 then ffs_from word 0 else 0)"

lemma word_neq_0_bit: "((w :: 'a::len word) \<noteq> 0) = (\<exists>j. bit w j)"
  by (simp add: bit_eq_iff) (metis bit_imp_le_length)

lemma and_one_shift_neq_0: "((w :: 'a::len word) AND push_bit i 1 \<noteq> 0) = bit w i"
proof
  assume "w AND push_bit i 1 \<noteq> 0"
  then obtain j where "bit (w AND push_bit i 1) j" unfolding word_neq_0_bit by blast
  then show "bit w i" by (auto simp: bit_simps)
next
  assume "bit w i"
  then have "bit (w AND push_bit i 1) i"
    by (auto simp: bit_simps dest: bit_imp_le_length)
  then show "w AND push_bit i 1 \<noteq> 0" unfolding word_neq_0_bit by blast
qed

lemma ffs_from_spec:
  fixes w :: "'a::len word"
  assumes "\<exists>k\<ge>i. bit w k"
  shows "\<exists>k. ffs_from w i = int k + 1 \<and> i \<le> k \<and> bit w k
            \<and> (\<forall>j. i \<le> j \<and> j < k \<longrightarrow> \<not> bit w j)"
  using assms
proof (induction w i rule: ffs_from.induct)
  case (1 word i)
  from "1.prems" obtain k where k: "k \<ge> i" "bit word k" by blast
  then have iL: "i < LENGTH('a)" using bit_imp_le_length [of word k] by simp
  show ?case
  proof (cases "bit word i")
    case True
    then have "ffs_from word i = int i + 1" using iL
      by (subst ffs_from.simps) (simp only: and_one_shift_neq_0 if_True)
    with True show ?thesis by auto
  next
    case False
    with k have "\<exists>k\<ge>Suc i. bit word k"
      by (metis Suc_leI le_neq_implies_less)
    with "1.IH" iL False obtain k' where k':
      "ffs_from word (Suc i) = int k' + 1" "Suc i \<le> k'" "bit word k'"
      "\<forall>j. Suc i \<le> j \<and> j < k' \<longrightarrow> \<not> bit word j"
      by (auto simp only: and_one_shift_neq_0)
    have "ffs_from word i = ffs_from word (Suc i)" using iL False
      by (subst ffs_from.simps) (simp only: and_one_shift_neq_0 if_True if_False)
    with k' False show ?thesis
      by (metis Suc_leD Suc_leI le_neq_implies_less)
  qed
qed

lemma ffs_spec:
  fixes w :: "'a::len word"
  assumes "w \<noteq> 0"
  shows "\<exists>k. ffs w = int k + 1 \<and> bit w k \<and> (\<forall>j < k. \<not> bit w j)"
proof -
  from assms obtain k where "bit w k" by (auto simp: word_neq_0_bit)
  then have "\<exists>k\<ge>0. bit w k" by blast
  from ffs_from_spec [OF this] assms show ?thesis by (auto simp: ffs_def)
qed

lemma clear_bit_less:
  fixes w :: "'a::len word"
  assumes "bit w k"
  shows "unat (w AND NOT (push_bit k 1)) < unat w"
proof -
  have "w AND NOT (push_bit k 1) \<le> w" by (rule word_and_le2)
  moreover have "w AND NOT (push_bit k 1) \<noteq> w"
  proof
    assume "w AND NOT (push_bit k 1) = w"
    then have "bit (w AND NOT (push_bit k 1)) k = bit w k" by simp
    with assms show False by (auto simp: bit_simps)
  qed
  ultimately have "w AND NOT (push_bit k 1) < w" by simp
  then show ?thesis by (simp add: word_less_nat_alt)
qed

lemma ffs_clear_less:
  fixes w :: "'a::len word"
  assumes "w \<noteq> 0"
  shows "unat (w AND NOT (push_bit (nat (ffs w - 1)) 1)) < unat w"
proof -
  from ffs_spec [OF assms] obtain k where "ffs w = int k + 1" "bit w k" by blast
  then show ?thesis by (simp add: clear_bit_less del: push_bit_of_1)
qed

subsection \<open>Construction from an integer\<close>

text \<open>
  \<open>compact_bitset(unsigned long long val)\<close>: starting from the all-zero bitset, the loop
  takes the lowest set bit of \<open>val\<close>, stops when it does not fit (the test is compiled
  in only when \<open>64 > N\<close>), sets it and clears it in \<open>val\<close>.
\<close>

function ull_loop :: "nat \<Rightarrow> 64 word \<Rightarrow> 'a::len word list \<Rightarrow> 'a word list" where
  "ull_loop N val data =
     (if val \<noteq> 0
      then (if 64 > N \<and> nat (ffs val - 1) \<ge> N then data
            else ull_loop N (val AND NOT (push_bit (nat (ffs val - 1)) 1))
                   (op_index_assign data (nat (ffs val - 1)) True))
      else data)"
  by pat_completeness auto
termination
  by (relation "measure (\<lambda>(N, val, data). unat val)") (auto simp: ffs_clear_less simp del: push_bit_of_1)

declare ull_loop.simps [simp del]

definition compact_bitset_ull :: "nat \<Rightarrow> 64 word \<Rightarrow> 'a::len word list" where
  "compact_bitset_ull N val = ull_loop N val (compact_bitset N)"

subsection \<open>Conversion to an integer\<close>

text \<open>
  \<open>do_int_convert<Int>\<close>, with \<open>Int\<close> the type \<open>'b word\<close>. \<open>handle_word\<close> is the lambda of
  the source: it moves the set bits of one word to \<open>ret\<close>, lowest first, and returns
  early at the first bit that does not fit into \<open>Int\<close>.
\<close>

function handle_word :: "nat \<Rightarrow> 'a::len word \<Rightarrow> 'b::len word \<Rightarrow> 'b word" where
  "handle_word bitOffset word ret =
     (if word \<noteq> 0
      then (if nat (ffs word - 1) + bitOffset \<ge> LENGTH('b) then ret
            else handle_word bitOffset (word AND NOT (push_bit (nat (ffs word - 1)) 1))
                   (ret OR push_bit (nat (ffs word - 1) + bitOffset) 1))
      else ret)"
  by pat_completeness auto
termination
  by (relation "measure (\<lambda>(bitOffset, word, ret). unat word)") (auto simp: ffs_clear_less simp del: push_bit_of_1)

declare handle_word.simps [simp del]

function convert_from :: "nat \<Rightarrow> 'a::len word list \<Rightarrow> nat \<Rightarrow> nat \<Rightarrow> 'b::len word \<Rightarrow> 'b word" where
  "convert_from N data w bitOffset ret =
     (if w < NFullyUsedWords TYPE('a) N \<and> bitOffset < LENGTH('b)
      then convert_from N data (Suc w) (bitOffset + TBits TYPE('a))
             (handle_word bitOffset (data ! w) ret)
      else if (LastWordMask N :: 'a word) \<noteq> 0 \<and> bitOffset < LENGTH('b)
           then handle_word bitOffset (data ! (NWords TYPE('a) N - 1) AND LastWordMask N) ret
      else ret)"
  by pat_completeness auto
termination
  by (relation "measure (\<lambda>(N, data, w, bitOffset, ret). NFullyUsedWords TYPE('a) N - w)") auto

declare convert_from.simps [simp del]

definition do_int_convert :: "nat \<Rightarrow> 'a::len word list \<Rightarrow> 'b::len word" where
  "do_int_convert N data = (if N = 0 then 0 else convert_from N data 0 0 0)"

text \<open>
  \<open>to_ulong\<close> and \<open>to_ullong\<close>. The width of \<open>unsigned long\<close> depends on the platform and is
  the length of the type \<open>'l\<close>; \<open>unsigned long long\<close> has 64 bits.
\<close>

definition to_ulong :: "nat \<Rightarrow> 'a::len word list \<Rightarrow> error + 'l::len word" where
  "to_ulong N data = (if N > LENGTH('l) then Inl Overflow else Inr (do_int_convert N data))"

definition to_ullong :: "nat \<Rightarrow> 'a::len word list \<Rightarrow> error + 64 word" where
  "to_ullong N data = (if N > 64 then Inl Overflow else Inr (do_int_convert N data))"

subsection \<open>Construction from a string\<close>

text \<open>
  \<open>compact_bitset(str, pos, n, zero, one)\<close>. After the range check, \<open>n\<close> becomes
  \<open>min(n, str.size())\<close> and the loop runs \<open>i\<close> from \<open>pos\<close> while \<open>i < n\<close> and \<open>j < N\<close>.
\<close>

function string_loop ::
  "nat \<Rightarrow> string \<Rightarrow> nat \<Rightarrow> char \<Rightarrow> char \<Rightarrow> nat \<Rightarrow> nat \<Rightarrow> 'a::len word list \<Rightarrow> error + 'a word list"
where
  "string_loop N str n zero one i j data =
     (if i < n \<and> j < N
      then (let ch = str ! i
            in if ch = one
               then string_loop N str n zero one (Suc i) (Suc j) (op_index_assign data j True)
               else if ch = zero
               then string_loop N str n zero one (Suc i) (Suc j) data
               else Inl InvalidArgument)
      else Inr data)"
  by pat_completeness auto
termination
  by (relation "measure (\<lambda>(N, str, n, zero, one, i, j, data). n - i)") auto

declare string_loop.simps [simp del]

definition compact_bitset_string ::
  "nat \<Rightarrow> string \<Rightarrow> nat \<Rightarrow> nat \<Rightarrow> char \<Rightarrow> char \<Rightarrow> error + 'a::len word list"
where
  "compact_bitset_string N str pos n zero one =
     (if pos \<ge> length str \<and> N \<noteq> 0 then Inl OutOfRange
      else string_loop N str (min n (length str)) zero one pos 0 (compact_bitset N))"

text \<open>
  \<open>compact_bitset(const CharT* str, n, zero, one)\<close> builds a string and delegates with
  \<open>pos = 0\<close>. The argument \<open>chars\<close> is the content of the character array; without a
  length (\<open>n = npos\<close>, the largest \<open>size_type\<close>) the string ends before the first NUL,
  with a length it is the first \<open>n\<close> characters.
\<close>

definition npos :: nat where
  "npos = 2 ^ 64 - 1"

definition compact_bitset_cstr ::
  "nat \<Rightarrow> string \<Rightarrow> nat \<Rightarrow> char \<Rightarrow> char \<Rightarrow> error + 'a::len word list"
where
  "compact_bitset_cstr N chars n zero one =
     compact_bitset_string N
       (if n = npos then takeWhile (\<lambda>c. c \<noteq> char_of (0 :: nat)) chars else take n chars)
       0 n zero one"

subsection \<open>Stream extraction\<close>

text \<open>
  The part of \<open>std::basic_istream\<close> that \<open>operator>>\<close> uses: the characters still to be
  read and the three state bits. \<open>peek\<close> and \<open>get\<close> behave as the C++ standard describes
  unformatted input: on a stream that is not good they set \<open>failbit\<close> and deliver
  nothing; at the end of the input \<open>peek\<close> sets \<open>eofbit\<close> and returns \<open>Traits::eof()\<close>,
  \<open>get\<close> sets \<open>eofbit\<close> and \<open>failbit\<close>.
\<close>

record istream =
  buf :: string
  eofbit :: bool
  failbit :: bool
  badbit :: bool

definition is_eof :: "istream \<Rightarrow> bool" where
  "is_eof is = eofbit is"

definition is_good :: "istream \<Rightarrow> bool" where
  "is_good is = (\<not> eofbit is \<and> \<not> failbit is \<and> \<not> badbit is)"

definition is_fail :: "istream \<Rightarrow> bool" where
  "is_fail is = (failbit is \<or> badbit is)"

definition is_setstate_failbit :: "istream \<Rightarrow> istream" where
  "is_setstate_failbit is = is\<lparr>failbit := True\<rparr>"

definition is_peek :: "istream \<Rightarrow> istream \<times> char option" where
  "is_peek is =
     (if \<not> is_good is then (is\<lparr>failbit := True\<rparr>, None)
      else case buf is of
             [] \<Rightarrow> (is\<lparr>eofbit := True\<rparr>, None)
           | c # cs \<Rightarrow> (is, Some c))"

definition is_get :: "istream \<Rightarrow> istream \<times> char option" where
  "is_get is =
     (if \<not> is_good is then (is\<lparr>failbit := True\<rparr>, None)
      else case buf is of
             [] \<Rightarrow> (is\<lparr>eofbit := True, failbit := True\<rparr>, None)
           | c # cs \<Rightarrow> (is\<lparr>buf := cs\<rparr>, Some c))"

text \<open>\<open>CharT ch = is.peek()\<close> converts \<open>Traits::eof()\<close>, which is \<open>-1\<close>, to the character 255.\<close>

definition to_char_type :: "char option \<Rightarrow> char" where
  "to_char_type r = (case r of None \<Rightarrow> char_of (255 :: nat) | Some c \<Rightarrow> c)"

function extract_loop ::
  "nat \<Rightarrow> char \<Rightarrow> char \<Rightarrow> nat \<Rightarrow> istream \<Rightarrow> 'a::len word list \<Rightarrow> istream \<times> 'a word list"
where
  "extract_loop N zero one i is x =
     (if i < N \<and> \<not> is_eof is
      then (if \<not> is_good is then (is, x)
            else (let is1 = fst (is_peek is);
                      ch = to_char_type (snd (is_peek is))
                  in if ch \<noteq> one \<and> ch \<noteq> zero
                     then ((if i = 0 then is_setstate_failbit is1 else is1), x)
                     else (let is2 = fst (is_get is1);
                               ch2 = (case snd (is_get is1) of None \<Rightarrow> ch | Some c \<Rightarrow> c)
                           in extract_loop N zero one (Suc i) is2
                                (op_index_assign x i (ch2 = one)))))
      else (is, x))"
  by pat_completeness auto
termination
  by (relation "measure (\<lambda>(N, zero, one, i, is, x). N - i)") auto

declare extract_loop.simps [simp del]

text \<open>\<open>is >> x\<close>; \<open>is.widen('1')\<close> and \<open>is.widen('0')\<close> are the characters themselves.\<close>

definition op_extract :: "nat \<Rightarrow> istream \<Rightarrow> 'a::len word list \<Rightarrow> istream \<times> 'a word list" where
  "op_extract N is x = extract_loop N CHR ''0'' CHR ''1'' 0 is (reset_all N x)"

subsection \<open>Raw bytes and hashing\<close>

text \<open>
  \<open>bits()\<close> views \<open>data\<close> as bytes. The bytes of a word are taken in little-endian order,
  the layout of the platforms the library is built for; \<open>std::size_t\<close> has 64 bits.
  \<open>hash_code\<close> XORs the bytes together in chunks of \<open>sizeof(std::size_t)\<close>, the last chunk
  padded with zero bytes.
\<close>

definition word_bytes :: "'a::len word \<Rightarrow> 8 word list" where
  "word_bytes w = map (\<lambda>k. ucast (drop_bit (8 * k) w)) [0..<LENGTH('a) div 8]"

definition bits :: "'a::len word list \<Rightarrow> 8 word list" where
  "bits data = concat (map word_bytes data)"

definition bits_size :: "'a::len word list \<Rightarrow> nat" where
  "bits_size data = length data * (LENGTH('a) div 8)"

fun load_bytes :: "8 word list \<Rightarrow> 64 word" where
  "load_bytes [] = 0"
| "load_bytes (b # bs) = ucast b OR push_bit 8 (load_bytes bs)"

function hash_from :: "8 word list \<Rightarrow> nat \<Rightarrow> 64 word \<Rightarrow> 64 word" where
  "hash_from bytes cur ret =
     (if cur < length bytes
      then hash_from bytes (cur + 8)
             (ret XOR load_bytes (take (min (length bytes - cur) 8) (drop cur bytes)))
      else ret)"
  by pat_completeness auto
termination
  by (relation "measure (\<lambda>(bytes, cur, ret). length bytes - cur)") auto

declare hash_from.simps [simp del]

definition hash_code :: "'a::len word list \<Rightarrow> 64 word" where
  "hash_code data = hash_from (bits data) 0 0"

subsection \<open>A scenario\<close>

text \<open>
  On a default-constructed \<open>compact_bitset<11>\<close> (16-bit words), \<open>set(10)\<close>, then \<open>set(0)\<close>,
  then \<open>to_string()\<close> with the default characters.
\<close>

definition scenario_A :: "error + string" where
  "scenario_A =
     (case set_pos 11 (compact_bitset 11 :: 16 word list) 10 True of
        Inl e \<Rightarrow> Inl e
      | Inr a \<Rightarrow> (case set_pos 11 a 0 True of
          Inl e \<Rightarrow> Inl e
        | Inr b \<Rightarrow> Inr (to_string 11 b CHR ''0'' CHR ''1'')))"

subsection \<open>The unused-bit invariant\<close>

text \<open>
  The comment on \<open>data\<close> says ``unused bits in this array are always 0''. The array has
  \<open>NWords\<close> words of \<open>TBits\<close> bits; the bit positions from \<open>N\<close> up to \<open>NWords * TBits\<close>, all
  of them in the last word, are the unused ones.
\<close>

definition unused_bits_zero :: "nat \<Rightarrow> 'a::len word list \<Rightarrow> bool" where
  "unused_bits_zero N data =
     (length data = NWords TYPE('a) N \<and>
      (\<forall>p \<in> {N..<NWords TYPE('a) N * TBits TYPE('a)}. \<not> op_index data p))"

subsection \<open>The value of a bitset\<close>

text \<open>
  The number a bitset stands for, in the words of the specification: bit 0 is the least
  significant digit, so the value is the sum of \<open>2 ^ i\<close> over the set bits \<open>i < N\<close>.
\<close>

definition bits_value :: "nat \<Rightarrow> 'a::len word list \<Rightarrow> nat" where
  "bits_value N data = (\<Sum>i<N. of_bool (op_index data i) * 2 ^ i)"

subsection \<open>The states the operations produce\<close>

text \<open>
  The bitsets that a program obtains from the constructors and the operations of the
  class: the default constructor, the constructors from an integer and from a string
  (when they do not throw), copy construction and assignment, \<open>x[pos] = b\<close> and
  \<open>x[pos].flip()\<close> for \<open>pos < size()\<close>, the checked \<open>set\<close>, \<open>reset\<close> and \<open>flip\<close> of one bit, \<open>set()\<close>, \<open>reset()\<close> and
  \<open>flip()\<close>, the binary operators and their compound forms, \<open>operator~\<close>, both shifts and
  their compound forms, and stream extraction. The array \<open>uninit\<close> stands for what an
  uninitialised result object holds. Writing to the bytes handed out by the mutable
  \<open>bits()\<close>, and \<open>x[pos]\<close> with \<open>pos \<ge> size()\<close>, are raw memory accesses and not among them.
\<close>

inductive_set reachable :: "nat \<Rightarrow> 'a::len word list set" for N :: nat where
  default_ctor: "compact_bitset N \<in> reachable N"
| ull_ctor: "compact_bitset_ull N val \<in> reachable N"
| string_ctor: "compact_bitset_string N str pos n zero one = Inr x \<Longrightarrow> x \<in> reachable N"
| cstr_ctor: "compact_bitset_cstr N chars n zero one = Inr x \<Longrightarrow> x \<in> reachable N"
| copy_ctor: "x \<in> reachable N \<Longrightarrow> length uninit = NWords TYPE('a) N
    \<Longrightarrow> copy_construct N uninit x \<in> reachable N"
| assign: "x \<in> reachable N \<Longrightarrow> y \<in> reachable N \<Longrightarrow> op_assign N x y \<in> reachable N"
| index_assign: "x \<in> reachable N \<Longrightarrow> pos < N \<Longrightarrow> op_index_assign x pos b \<in> reachable N"
| index_flip: "x \<in> reachable N \<Longrightarrow> pos < N
    \<Longrightarrow> ref_flip x (make_ref TYPE('a) pos) \<in> reachable N"
| set_bit: "x \<in> reachable N \<Longrightarrow> set_pos N x pos v = Inr y \<Longrightarrow> y \<in> reachable N"
| reset_bit: "x \<in> reachable N \<Longrightarrow> reset_pos N x pos = Inr y \<Longrightarrow> y \<in> reachable N"
| flip_bit: "x \<in> reachable N \<Longrightarrow> flip_pos N x pos = Inr y \<Longrightarrow> y \<in> reachable N"
| set_bulk: "x \<in> reachable N \<Longrightarrow> set_all N x \<in> reachable N"
| reset_bulk: "x \<in> reachable N \<Longrightarrow> reset_all N x \<in> reachable N"
| flip_bulk: "x \<in> reachable N \<Longrightarrow> flip_all N x \<in> reachable N"
| and_op: "x \<in> reachable N \<Longrightarrow> y \<in> reachable N \<Longrightarrow> length uninit = NWords TYPE('a) N
    \<Longrightarrow> op_and N uninit x y \<in> reachable N"
| or_op: "x \<in> reachable N \<Longrightarrow> y \<in> reachable N \<Longrightarrow> length uninit = NWords TYPE('a) N
    \<Longrightarrow> op_or N uninit x y \<in> reachable N"
| xor_op: "x \<in> reachable N \<Longrightarrow> y \<in> reachable N \<Longrightarrow> length uninit = NWords TYPE('a) N
    \<Longrightarrow> op_xor N uninit x y \<in> reachable N"
| and_assign: "x \<in> reachable N \<Longrightarrow> y \<in> reachable N \<Longrightarrow> length uninit = NWords TYPE('a) N
    \<Longrightarrow> op_and_assign N uninit x y \<in> reachable N"
| or_assign: "x \<in> reachable N \<Longrightarrow> y \<in> reachable N \<Longrightarrow> length uninit = NWords TYPE('a) N
    \<Longrightarrow> op_or_assign N uninit x y \<in> reachable N"
| xor_assign: "x \<in> reachable N \<Longrightarrow> y \<in> reachable N \<Longrightarrow> length uninit = NWords TYPE('a) N
    \<Longrightarrow> op_xor_assign N uninit x y \<in> reachable N"
| not_op: "x \<in> reachable N \<Longrightarrow> length uninit = NWords TYPE('a) N
    \<Longrightarrow> op_not N uninit x \<in> reachable N"
| shl_op: "x \<in> reachable N \<Longrightarrow> length uninit = NWords TYPE('a) N
    \<Longrightarrow> op_shl N uninit x shift \<in> reachable N"
| shr_op: "x \<in> reachable N \<Longrightarrow> length uninit = NWords TYPE('a) N
    \<Longrightarrow> op_shr N uninit x shift \<in> reachable N"
| shl_assign: "x \<in> reachable N \<Longrightarrow> length uninit = NWords TYPE('a) N
    \<Longrightarrow> op_shl_assign N uninit x shift \<in> reachable N"
| shr_assign: "x \<in> reachable N \<Longrightarrow> length uninit = NWords TYPE('a) N
    \<Longrightarrow> op_shr_assign N uninit x shift \<in> reachable N"
| stream_extract: "x \<in> reachable N \<Longrightarrow> op_extract N is x = (is', y) \<Longrightarrow> y \<in> reachable N"

section \<open>Basic facts\<close>

text \<open>The word types of the capacities used in the examples below.\<close>

lemma default_TBits_examples:
  "default_TBits 0 = TBits TYPE(8)" "default_TBits 3 = TBits TYPE(8)"
  "default_TBits 8 = TBits TYPE(8)" "default_TBits 11 = TBits TYPE(16)"
  "default_TBits 20 = TBits TYPE(32)" "default_TBits 64 = TBits TYPE(64)"
  "default_TBits 65 = TBits TYPE(64)"
  by (simp_all add: default_TBits_def TBits_def)

lemma for_loop_fold: "for_loop i n body s = fold body [i..<n] s"
proof (induction i n body s rule: for_loop.induct)
  case (1 i n body s)
  show ?case
  proof (cases "i < n")
    case True
    with "1" show ?thesis
      by (subst for_loop.simps) (simp add: upt_conv_Cons)
  next
    case False
    then show ?thesis
      by (subst for_loop.simps) simp
  qed
qed

lemma op_index_bit: "op_index (data :: 'a::len word list) pos = bit (data ! (pos div LENGTH('a))) (pos mod LENGTH('a))"
  unfolding op_index_def ref_bool_def make_ref_def TBits_def
  by (simp add: bit_iff_and_drop_bit_eq_1 and_one_eq  flip: bit_0 )

lemma length_op_index_assign [simp]: "length (op_index_assign data pos b) = length data"
  by (simp add: op_index_assign_def ref_assign_def make_ref_def)

lemma nth_op_index_assign:
  fixes data :: "'a::len word list"
  assumes "pos div LENGTH('a) < length data"
  shows "bit (op_index_assign data pos b ! k) j =
     (if k = pos div LENGTH('a) \<and> j = pos mod LENGTH('a) then b else bit (data ! k) j)"
  using assms
  by (auto simp: op_index_assign_def ref_assign_def make_ref_def TBits_def bit_simps nth_list_update dest: bit_imp_le_length)

lemma div_mod_eq_iff: "(q div (L::nat) = p div L \<and> q mod L = p mod L) = (q = p)"
  by (metis div_mult_mod_eq)

lemma op_index_op_index_assign:
  fixes data :: "'a::len word list"
  assumes "pos div LENGTH('a) < length data"
  shows "op_index (op_index_assign data pos b) q = (if q = pos then b else op_index data q)"
  using assms by (simp add: op_index_bit nth_op_index_assign div_mod_eq_iff)

lemma NWords_bound: "N \<le> NWords TYPE('a::len) N * LENGTH('a)"
proof -
  have "N = N div LENGTH('a) * LENGTH('a) + N mod LENGTH('a)" by simp
  moreover have "N mod LENGTH('a) \<le> (if N mod LENGTH('a) \<noteq> 0 then 1 else 0) * LENGTH('a)"
    by (simp add: less_imp_le)
  ultimately show ?thesis
    unfolding NWords_def NFullyUsedWords_def NBitsRem_def TBits_def
    by (metis add_le_cancel_left distrib_right)
qed

lemma NWords_index: "i < N \<Longrightarrow> i div LENGTH('a::len) < NWords TYPE('a::len) N "
  using NWords_bound [where 'a='a, of N] 
  by (simp add: less_mult_imp_div_less order_less_le_trans)

lemma bit_LastWordMask: "bit (LastWordMask N :: 'a::len word) i = (i < N mod LENGTH('a))"
  unfolding LastWordMask_def NBitsRem_def TBits_def
  by (auto simp flip: mask_eq_exp_minus_1 simp add: push_bit_eq_mult bit_simps intro: less_trans[OF _ mod_less_divisor])

lemma LastWordMask_eq_0: "((LastWordMask N :: 'a::len word) = 0) = (N mod LENGTH('a) = 0)"
proof
  assume "(LastWordMask N :: 'a word) = 0"
  then have "\<not> bit (LastWordMask N :: 'a word) 0" by simp
  then show "N mod LENGTH('a) = 0" by (simp add: bit_LastWordMask)
next
  assume "N mod LENGTH('a) = 0"
  then show "(LastWordMask N :: 'a word) = 0"
    by (intro bit_eqI) (simp add: bit_LastWordMask)
qed

lemma for_loop_stop [simp]: "n \<le> i \<Longrightarrow> for_loop i n body s = s"
  by (subst for_loop.simps) simp

lemma for_loop_step: "i < n \<Longrightarrow> for_loop i n body s = for_loop (Suc i) n body (body i s)"
  by (subst for_loop.simps) simp

lemma to_string_loop:
  "length (for_loop i n (\<lambda>bit ret. if P bit then ret[bit := v] else ret) xs) = length xs \<and>
   (\<forall>q < length xs. for_loop i n (\<lambda>bit ret. if P bit then ret[bit := v] else ret) xs ! q
        = (if i \<le> q \<and> q < n \<and> P q then v else xs ! q))"
proof (induction i n "\<lambda>bit ret. if P bit then ret[bit := v] else ret" xs rule: for_loop.induct)
  case (1 i n s)
  show ?case
  proof (cases "i < n")
    case True
    let ?s' = "if P i then s[i := v] else s"
    have len: "length ?s' = length s" by simp
    from 1 [OF True] len have IH:
      "length (for_loop (Suc i) n (\<lambda>bit ret. if P bit then ret[bit := v] else ret) ?s') = length s"
      "\<And>q. q < length s \<Longrightarrow>
         for_loop (Suc i) n (\<lambda>bit ret. if P bit then ret[bit := v] else ret) ?s' ! q
           = (if Suc i \<le> q \<and> q < n \<and> P q then v else ?s' ! q)"
      by simp_all
    have step: "for_loop i n (\<lambda>bit ret. if P bit then ret[bit := v] else ret) s
        = for_loop (Suc i) n (\<lambda>bit ret. if P bit then ret[bit := v] else ret) ?s'"
      using True by (rule for_loop_step)
    show ?thesis
    proof (intro conjI allI impI)
      show "length (for_loop i n (\<lambda>bit ret. if P bit then ret[bit := v] else ret) s) = length s"
        using IH(1) step by simp
    next
      fix q assume q: "q < length s"
      show "for_loop i n (\<lambda>bit ret. if P bit then ret[bit := v] else ret) s ! q
            = (if i \<le> q \<and> q < n \<and> P q then v else s ! q)"
      proof (cases "q = i")
        case True
        with q \<open>i < n\<close> show ?thesis unfolding step IH(2) [OF q] by simp
      next
        case False
        then have "(i \<le> q) = (Suc i \<le> q)" by auto
        with False q show ?thesis unfolding step IH(2) [OF q] by simp
      qed
    qed
  next
    case False
    then show ?thesis by auto
  qed
qed

lemma to_string_nth:
  "length (to_string N data zero one) = N \<and>
     (\<forall>i<N. to_string N data zero one ! i = (if op_index data i then one else zero))"
  unfolding to_string_def using to_string_loop [of 0 N "op_index data" one "replicate N zero"]
  by simp

lemma scenario_A_value: "scenario_A = Inr ''10000000001''"
  by code_simp

subsection \<open>Equality, bit by bit\<close>

lemma word_eq_op_index:
  fixes x y :: "'a::len word list"
  shows "(x ! w = y ! w) = (\<forall>i. w * LENGTH('a) \<le> i \<and> i < Suc w * LENGTH('a) \<longrightarrow> op_index x i = op_index y i)"
proof
  assume "x ! w = y ! w"
  moreover have "\<And>i. w * LENGTH('a) \<le> i \<and> i < Suc w * LENGTH('a) \<Longrightarrow> i div LENGTH('a) = w"
    by (metis div_nat_eqI mult.commute)
  ultimately show "\<forall>i. w * LENGTH('a) \<le> i \<and> i < Suc w * LENGTH('a) \<longrightarrow> op_index x i = op_index y i"
    by (simp add: op_index_bit)
next
  assume a: "\<forall>i. w * LENGTH('a) \<le> i \<and> i < Suc w * LENGTH('a) \<longrightarrow> op_index x i = op_index y i"
  show "x ! w = y ! w"
  proof (rule bit_word_eqI)
    fix j assume j: "j < LENGTH('a)"
    then have "w * LENGTH('a) \<le> w * LENGTH('a) + j \<and> w * LENGTH('a) + j < Suc w * LENGTH('a)" by simp
    with a have "op_index x (w * LENGTH('a) + j) = op_index y (w * LENGTH('a) + j)" by blast
    with j show "bit (x ! w) j = bit (y ! w) j" by (simp add: op_index_bit)
  qed
qed

lemma masked_eq_op_index:
  fixes x y :: "'a::len word list"
  assumes "w = N div LENGTH('a)"
  shows "(x ! w AND LastWordMask N = y ! w AND LastWordMask N)
     = (\<forall>i. w * LENGTH('a) \<le> i \<and> i < N \<longrightarrow> op_index x i = op_index y i)"
proof
  assume e: "x ! w AND LastWordMask N = y ! w AND LastWordMask N"
  show "\<forall>i. w * LENGTH('a) \<le> i \<and> i < N \<longrightarrow> op_index x i = op_index y i"
  proof (intro allI impI)
    fix i assume i: "w * LENGTH('a) \<le> i \<and> i < N"
    with assms have d: "i div LENGTH('a) = w"
      by (metis div_le_mono div_mult_self_is_m len_gt_0 less_or_eq_imp_le order_antisym)
    with i assms have m: "i mod LENGTH('a) < N mod LENGTH('a)"
      by (metis add_less_cancel_left div_mult_mod_eq)
    from e have "bit (x ! w AND LastWordMask N) (i mod LENGTH('a)) = bit (y ! w AND LastWordMask N) (i mod LENGTH('a))"
      by simp
    with m d show "op_index x i = op_index y i"
      by (simp add: op_index_bit bit_and_iff bit_LastWordMask)
  qed
next
  assume a: "\<forall>i. w * LENGTH('a) \<le> i \<and> i < N \<longrightarrow> op_index x i = op_index y i"
  show "x ! w AND LastWordMask N = y ! w AND LastWordMask N"
  proof (rule bit_word_eqI)
    fix j assume j: "j < LENGTH('a)"
    show "bit (x ! w AND LastWordMask N) j = bit (y ! w AND LastWordMask N) j"
    proof (cases "j < N mod LENGTH('a)")
      case True
      with assms have "w * LENGTH('a) + j < N"
        by (metis add_less_cancel_left div_mult_mod_eq mult.commute)
      with a have "op_index x (w * LENGTH('a) + j) = op_index y (w * LENGTH('a) + j)" by simp
      with j True show ?thesis by (simp add: op_index_bit bit_and_iff bit_LastWordMask)
    next
      case False
      then show ?thesis by (simp add: bit_and_iff bit_LastWordMask)
    qed
  qed
qed

lemma eq_from_op_index:
  fixes x y :: "'a::len word list"
  assumes "w \<le> N div LENGTH('a)"
  shows "eq_from N x y w = (\<forall>i. w * LENGTH('a) \<le> i \<and> i < N \<longrightarrow> op_index x i = op_index y i)"
  using assms
proof (induction N x y w rule: eq_from.induct)
  case (1 N x y w)
  show ?case
  proof (cases "w < N div LENGTH('a)")
    case True
    then have full: "Suc w * LENGTH('a) \<le> N"
    proof -
      from True have "Suc w * LENGTH('a) \<le> N div LENGTH('a) * LENGTH('a)"
        by (intro mult_le_mono1) simp
      also have "\<dots> \<le> N" by simp
      finally show ?thesis .
    qed
    have split: "\<And>P. (\<forall>i. w * LENGTH('a) \<le> i \<and> i < N \<longrightarrow> P i)
        = ((\<forall>i. w * LENGTH('a) \<le> i \<and> i < Suc w * LENGTH('a) \<longrightarrow> P i)
           \<and> (\<forall>i. Suc w * LENGTH('a) \<le> i \<and> i < N \<longrightarrow> P i))"
      using full by (auto simp: not_less[symmetric] intro: less_le_trans) 
    show ?thesis
    proof (cases "x ! w = y ! w")
      case eq: True
      with True "1.IH" have "eq_from N x y (Suc w)
         = (\<forall>i. Suc w * LENGTH('a) \<le> i \<and> i < N \<longrightarrow> op_index x i = op_index y i)"
        by (simp add: NFullyUsedWords_def TBits_def)
      moreover have "eq_from N x y w = eq_from N x y (Suc w)"
        using True eq by (subst eq_from.simps) (simp add: NFullyUsedWords_def TBits_def)
      ultimately show ?thesis
        using eq unfolding split [of "\<lambda>i. op_index x i = op_index y i"] word_eq_op_index [symmetric]
        by simp
    next
      case neq: False
      have "\<not> eq_from N x y w"
        using True neq by (subst eq_from.simps) (simp add: NFullyUsedWords_def TBits_def)
      then show ?thesis
        using neq unfolding split [of "\<lambda>i. op_index x i = op_index y i"] word_eq_op_index [symmetric]
        by simp
    qed
  next
    case False
    with "1.prems" have w: "w = N div LENGTH('a)" by simp
    show ?thesis
    proof (cases "N mod LENGTH('a) = 0")
      case True
      then have "N = w * LENGTH('a)" using w by (metis div_mult_mod_eq add.right_neutral)
      moreover have "eq_from N x y w"
        using False True by (subst eq_from.simps) (simp add: NFullyUsedWords_def TBits_def LastWordMask_eq_0)
      ultimately show ?thesis by auto
    next
      case nz: False
      have "eq_from N x y w = (x ! w AND LastWordMask N = y ! w AND LastWordMask N)"
        using False nz by (subst eq_from.simps) (simp add: NFullyUsedWords_def TBits_def LastWordMask_eq_0)
      then show ?thesis using masked_eq_op_index [OF w] by simp
    qed
  qed
qed

subsection \<open>Loops that assign bits\<close>

lemma for_loop_assign:
  fixes d :: "'a::len word list"
  assumes "\<forall>k. i \<le> k \<and> k < n \<longrightarrow> (k + off) div LENGTH('a) < length d"
  shows "length (for_loop i n (\<lambda>k d. op_index_assign d (k + off) (g k)) d) = length d \<and>
    (\<forall>q. op_index (for_loop i n (\<lambda>k d. op_index_assign d (k + off) (g k)) d) q
        = (if i + off \<le> q \<and> q < n + off then g (q - off) else op_index d q))"
  using assms
proof (induction i n "\<lambda>k (d :: 'a word list). op_index_assign d (k + off) (g k)" d rule: for_loop.induct)
  case (1 i n d)
  show ?case
  proof (cases "i < n")
    case True
    let ?d' = "op_index_assign d (i + off) (g i)"
    from "1.prems" True have r: "(i + off) div LENGTH('a) < length d" by simp
    from "1.prems" have "\<forall>k. Suc i \<le> k \<and> k < n \<longrightarrow> (k + off) div LENGTH('a) < length ?d'"
      by simp
    from "1.hyps" [OF True this] have IH:
      "length (for_loop (Suc i) n (\<lambda>k d. op_index_assign d (k + off) (g k)) ?d') = length d"
      "\<And>q. op_index (for_loop (Suc i) n (\<lambda>k d. op_index_assign d (k + off) (g k)) ?d') q
        = (if Suc i + off \<le> q \<and> q < n + off then g (q - off) else op_index ?d' q)"
      by simp_all
    have step: "for_loop i n (\<lambda>k d. op_index_assign d (k + off) (g k)) d
        = for_loop (Suc i) n (\<lambda>k d. op_index_assign d (k + off) (g k)) ?d'"
      using True by (rule for_loop_step)
    show ?thesis
    proof (intro conjI allI)
      show "length (for_loop i n (\<lambda>k d. op_index_assign d (k + off) (g k)) d) = length d"
        unfolding step by (rule IH(1))
    next
      fix q
      show "op_index (for_loop i n (\<lambda>k d. op_index_assign d (k + off) (g k)) d) q
        = (if i + off \<le> q \<and> q < n + off then g (q - off) else op_index d q)"
      proof (cases "q = i + off")
        case True
        with \<open>i < n\<close> show ?thesis
          unfolding step IH(2) by (simp add: op_index_op_index_assign [OF r])
      next
        case False
        then have "(i + off \<le> q) = (Suc i + off \<le> q)" by auto
        with False show ?thesis
          unfolding step IH(2) by (simp add: op_index_op_index_assign [OF r])
      qed
    qed
  next
    case False
    then show ?thesis by auto
  qed
qed

lemma shl_clear_for_loop:
  "shl_clear N shift i ret = for_loop i (min shift N) (\<lambda>k d. op_index_assign d (k + 0) False) ret"
proof (induction N shift i ret rule: shl_clear.induct)
  case (1 N shift i ret)
  show ?case
  proof (cases "i < shift \<and> i < N")
    case True
    with 1 show ?thesis
      by (subst shl_clear.simps, subst for_loop.simps) simp
  next
    case False
    then show ?thesis
      by (subst shl_clear.simps, subst for_loop.simps) auto
  qed
qed

lemma shl_copy_for_loop:
  "shl_copy N data shift i ret
     = for_loop i (N - shift) (\<lambda>k d. op_index_assign d (k + shift) (op_index data k)) ret"
proof (induction N data shift i ret rule: shl_copy.induct)
  case (1 N data shift i ret)
  show ?case
  proof (cases "i + shift < N")
    case True
    with 1 show ?thesis
      by (subst shl_copy.simps, subst for_loop.simps) (simp add: less_diff_conv)
  next
    case False
    then show ?thesis
      by (subst shl_copy.simps, subst for_loop.simps) (simp add: less_diff_conv)
  qed
qed

lemma length_mask_last_word [simp]: "length (mask_last_word N d) = length d"
  by (simp add: mask_last_word_def)

lemma NWords_last:
  "N mod LENGTH('a::len) \<noteq> 0 \<Longrightarrow> NWords TYPE('a) N - 1 = N div LENGTH('a)"
  by (simp add: NWords_def NFullyUsedWords_def NBitsRem_def TBits_def)

lemma NWords_full:
  "N mod LENGTH('a::len) = 0 \<Longrightarrow> NWords TYPE('a) N * LENGTH('a) = N"
  by (simp add: NWords_def NFullyUsedWords_def NBitsRem_def TBits_def)
    (metis div_mult_mod_eq add.right_neutral)

lemma op_index_mask_last_word:
  fixes d :: "'a::len word list"
  assumes "length d = NWords TYPE('a) N" "q < NWords TYPE('a) N * LENGTH('a)"
  shows "op_index (mask_last_word N d) q = (q < N \<and> op_index d q)"
proof (cases "N mod LENGTH('a) = 0")
  case True
  with assms NWords_full [OF True] show ?thesis
    by (simp add: mask_last_word_def LastWordMask_eq_0)
next
  case False
  have qd: "q div LENGTH('a) < length d" using assms by (simp add: less_mult_imp_div_less)
  have last: "NWords TYPE('a) N - 1 = N div LENGTH('a)" by (rule NWords_last [OF False])
  have lt: "N div LENGTH('a) < length d" using assms False
    by (simp add: NWords_def NFullyUsedWords_def NBitsRem_def TBits_def)
  have m: "mask_last_word N d
      = d[N div LENGTH('a) := d ! (N div LENGTH('a)) AND LastWordMask N]"
    unfolding mask_last_word_def last using False by (simp add: LastWordMask_eq_0)
  show ?thesis
  proof (cases "q div LENGTH('a) = N div LENGTH('a)")
    case True
    then have "(q < N) = (q mod LENGTH('a) < N mod LENGTH('a))"
      by (metis add_less_cancel_left div_mult_mod_eq)
    with True lt show ?thesis
      unfolding m by (auto simp: op_index_bit bit_and_iff bit_LastWordMask)
  next
    case neq: False
    have "q div LENGTH('a) < N div LENGTH('a)"
      using qd neq assms False by (simp add: NWords_def NFullyUsedWords_def NBitsRem_def TBits_def)
    then have "q < N"
      by (meson div_le_mono leI not_less)
    with neq show ?thesis
      unfolding m by (simp add: op_index_bit)
  qed
qed

subsection \<open>Whole arrays and the shifts\<close>

lemma data_eqI:
  fixes x y :: "'a::len word list"
  assumes "length x = length y"
    and "\<And>q. q < length x * LENGTH('a) \<Longrightarrow> op_index x q = op_index y q"
  shows "x = y"
proof (rule nth_equalityI [OF assms(1)])
  fix w assume w: "w < length x"
  show "x ! w = y ! w"
  proof (rule bit_word_eqI)
    fix j assume j: "j < LENGTH('a)"
    have "w * LENGTH('a) + j < length x * LENGTH('a)"
    proof -
      have "w * LENGTH('a) + j < Suc w * LENGTH('a)" using j by simp
      also have "\<dots> \<le> length x * LENGTH('a)" using w by (intro mult_le_mono1) simp
      finally show ?thesis .
    qed
    from assms(2) [OF this] j show "bit (x ! w) j = bit (y ! w) j"
      by (simp add: op_index_bit)
  qed
qed

lemma length_compact_bitset [simp]:
  "length (compact_bitset N :: 'a::len word list) = NWords TYPE('a) N"
  by (simp add: compact_bitset_def)

lemma op_index_compact_bitset:
  "q < NWords TYPE('a) N * LENGTH('a) \<Longrightarrow> \<not> op_index (compact_bitset N :: 'a::len word list) q"
  by (simp add: compact_bitset_def op_index_bit less_mult_imp_div_less)

lemma unused_bits_zero_mask_last_word:
  fixes d :: "'a::len word list"
  assumes "length d = NWords TYPE('a) N"
  shows "unused_bits_zero N (mask_last_word N d)"
  using assms by (simp add: unused_bits_zero_def TBits_def op_index_mask_last_word)

lemma all_zero_eq_compact_bitset:
  fixes d :: "'a::len word list"
  assumes "unused_bits_zero N d" "\<And>q. q < N \<Longrightarrow> \<not> op_index d q"
  shows "d = compact_bitset N"
proof (rule data_eqI)
  show "length d = length (compact_bitset N :: 'a word list)"
    using assms(1) by (simp add: unused_bits_zero_def)
next
  fix q assume "q < length d * LENGTH('a)"
  then have q: "q < NWords TYPE('a) N * LENGTH('a)" using assms(1) by (simp add: unused_bits_zero_def)
  have "\<not> op_index d q"
  proof (cases "q < N")
    case True then show ?thesis by (rule assms(2))
  next
    case False with q assms(1) show ?thesis by (simp add: unused_bits_zero_def TBits_def)
  qed
  with q show "op_index d q = op_index (compact_bitset N :: 'a word list) q"
    by (simp add: op_index_compact_bitset)
qed

lemma op_shl_bits:
  fixes uninit x :: "'a::len word list"
  assumes len: "length uninit = NWords TYPE('a) N"
  shows "length (op_shl N uninit x s) = NWords TYPE('a) N"
    and "q < N \<Longrightarrow> op_index (op_shl N uninit x s) q = (s \<le> q \<and> op_index x (q - s))"
proof -
  let ?r1 = "for_loop 0 (min s N) (\<lambda>k d. op_index_assign d (k + 0) False) uninit"
  let ?r2 = "for_loop 0 (N - s) (\<lambda>k d. op_index_assign d (k + s) (op_index x k)) ?r1"
  have a1: "\<forall>k. 0 \<le> k \<and> k < min s N \<longrightarrow> (k + 0) div LENGTH('a) < length uninit"
    using len by (simp add: NWords_index)
  note r1 = for_loop_assign [OF a1, of "\<lambda>k. False"]
  have l1: "length ?r1 = NWords TYPE('a) N"
    using r1 [THEN conjunct1] len by (rule trans)
  have a2: "\<forall>k. 0 \<le> k \<and> k < N - s \<longrightarrow> (k + s) div LENGTH('a) < length ?r1"
    unfolding l1 by (simp add: NWords_index less_diff_conv)
  note r2 = for_loop_assign [OF a2, of "op_index x"]
  have e: "op_shl N uninit x s = mask_last_word N ?r2"
    by (simp add: op_shl_def shl_clear_for_loop shl_copy_for_loop)
  have l2: "length ?r2 = NWords TYPE('a) N"
    using r2 [THEN conjunct1] l1 by (rule trans)
  then show "length (op_shl N uninit x s) = NWords TYPE('a) N" by (simp add: e)
  assume q: "q < N"
  then have q': "q < NWords TYPE('a) N * LENGTH('a)"
    using NWords_bound [where 'a='a, of N] by simp
  have "op_index ?r2 q = (s \<le> q \<and> op_index x (q - s))"
    using q r1 r2 by auto
  with q show "op_index (op_shl N uninit x s) q = (s \<le> q \<and> op_index x (q - s))"
    unfolding e op_index_mask_last_word [OF l2 q'] by simp
qed

lemma op_shr_bits:
  fixes uninit x :: "'a::len word list"
  assumes len: "length uninit = NWords TYPE('a) N"
  shows "length (op_shr N uninit x s) = NWords TYPE('a) N"
    and "q < N \<Longrightarrow> op_index (op_shr N uninit x s) q = (q + s < N \<and> op_index x (q + s))"
proof -
  let ?e = "if N \<ge> s then N - s else 0"
  let ?r1 = "for_loop ?e N (\<lambda>k d. op_index_assign d (k + 0) False) uninit"
  let ?r2 = "for_loop 0 ?e (\<lambda>k d. op_index_assign d (k + 0) (op_index x (k + s))) ?r1"
  have a1: "\<forall>k. ?e \<le> k \<and> k < N \<longrightarrow> (k + 0) div LENGTH('a) < length uninit"
    using len by (simp add: NWords_index)
  note r1 = for_loop_assign [OF a1, of "\<lambda>k. False"]
  have l1: "length ?r1 = NWords TYPE('a) N"
    using r1 [THEN conjunct1] len by (rule trans)
  have a2: "\<forall>k. 0 \<le> k \<and> k < ?e \<longrightarrow> (k + 0) div LENGTH('a) < length ?r1"
    unfolding l1 by (auto simp: NWords_index)
  note r2 = for_loop_assign [OF a2, of "\<lambda>k. op_index x (k + s)"]
  have e: "op_shr N uninit x s = mask_last_word N ?r2"
    by (simp add: op_shr_def Let_def)
  have l2: "length ?r2 = NWords TYPE('a) N"
    using r2 [THEN conjunct1] l1 by (rule trans)
  then show "length (op_shr N uninit x s) = NWords TYPE('a) N" by (simp add: e)
  assume q: "q < N"
  then have q': "q < NWords TYPE('a) N * LENGTH('a)"
    using NWords_bound [where 'a='a, of N] by simp
  have "op_index ?r2 q = (q + s < N \<and> op_index x (q + s))"
    using q r1 r2 by (auto simp: less_diff_conv)
  with q show "op_index (op_shr N uninit x s) q = (q + s < N \<and> op_index x (q + s))"
    unfolding e op_index_mask_last_word [OF l2 q'] by simp
qed

lemma unused_bits_zero_op_shl:
  fixes uninit x :: "'a::len word list"
  assumes len: "length uninit = NWords TYPE('a) N"
  shows "unused_bits_zero N (op_shl N uninit x s)"
proof -
  have "length (shl_copy N x s 0 (shl_clear N s 0 uninit)) = NWords TYPE('a) N"
    using op_shl_bits(1) [OF len, of x s] by (simp add: op_shl_def)
  then show ?thesis unfolding op_shl_def by (rule unused_bits_zero_mask_last_word)
qed

lemma unused_bits_zero_op_shr:
  fixes uninit x :: "'a::len word list"
  assumes len: "length uninit = NWords TYPE('a) N"
  shows "unused_bits_zero N (op_shr N uninit x s)"
proof -
  have l: "length (op_shr N uninit x s) = NWords TYPE('a) N"
    by (rule op_shr_bits(1) [OF len])
  show ?thesis using l unfolding op_shr_def Let_def 
    by (simp add: unused_bits_zero_mask_last_word)
qed

subsection \<open>Conversion to an integer, bit by bit\<close>

lemma ffs_lowest:
  fixes w :: "'a::len word"
  assumes "w \<noteq> 0"
  obtains k where "nat (ffs w - 1) = k" "bit w k" "\<And>j. bit w j \<Longrightarrow> k \<le> j" "k < LENGTH('a)"
proof -
  from ffs_spec [OF assms] obtain k where k: "ffs w = int k + 1" "bit w k" "\<forall>j < k. \<not> bit w j"
    by blast
  show thesis
  proof (rule that [of k])
    show "nat (ffs w - 1) = k" using k(1) by simp
    show "bit w k" by (rule k(2))
    show "k < LENGTH('a)" using k(2) by (rule bit_imp_le_length)
    fix j assume "bit w j" with k(3) show "k \<le> j" by (meson not_less)
  qed
qed

lemma bit_handle_word:
  fixes w :: "'a::len word" and ret :: "'b::len word"
  shows "bit (handle_word off w ret) n
     = (bit ret n \<or> (off \<le> n \<and> n < LENGTH('b) \<and> bit w (n - off)))"
proof (induction off w ret arbitrary: n rule: handle_word.induct)
  case (1 off w ret)
  show ?case
  proof (cases "w = 0")
    case True
    then show ?thesis by (subst handle_word.simps) simp
  next
    case False
    from ffs_lowest [OF False] obtain k where k: "nat (ffs w - 1) = k" "bit w k"
      "\<And>j. bit w j \<Longrightarrow> k \<le> j" "k < LENGTH('a)" by blast
    show ?thesis
    proof (cases "k + off \<ge> LENGTH('b)")
      case True
      have "handle_word off w ret = ret"
        using False True k(1) by (subst handle_word.simps) simp
      moreover have "\<not> (off \<le> n \<and> n < LENGTH('b) \<and> bit w (n - off))"
      proof
        assume a: "off \<le> n \<and> n < LENGTH('b) \<and> bit w (n - off)"
        then have "k \<le> n - off" using k(3) by blast
        with a True show False by linarith
      qed
      ultimately show ?thesis by auto
    next
      case fit: False
      let ?w' = "w AND NOT (push_bit k 1)"
      let ?ret' = "ret OR push_bit (k + off) 1"
      have step: "handle_word off w ret = handle_word off ?w' ?ret'"
        using False fit k(1) by (subst handle_word.simps) (simp del: push_bit_of_1)
      have IH: "bit (handle_word off ?w' ?ret') n
          = (bit ?ret' n \<or> (off \<le> n \<and> n < LENGTH('b) \<and> bit ?w' (n - off)))"
        using "1.IH" [OF False, of n] fit k(1) by (simp del: push_bit_of_1)
      have r: "bit ?ret' n = (bit ret n \<or> n = k + off)"
        using fit by (auto simp: bit_simps)
      have w': "bit ?w' (n - off) = (bit w (n - off) \<and> n - off \<noteq> k)"
        using k(4) by (auto simp: bit_simps dest: bit_imp_le_length)
      show ?thesis
        unfolding step IH r w' using k(2) fit by auto
    qed
  qed
qed

lemma op_index_in_word:
  fixes data :: "'a::len word list"
  assumes "w * LENGTH('a) \<le> n" "n < Suc w * LENGTH('a)"
  shows "op_index data n = bit (data ! w) (n - w * LENGTH('a))"
proof -
  from assms have d: "n div LENGTH('a) = w" by (metis div_nat_eqI mult.commute)
  then have "n mod LENGTH('a) = n - w * LENGTH('a)"
    by (metis minus_mult_div_eq_mod mult.commute)
  with d show ?thesis by (simp add: op_index_bit)
qed

lemma bit_convert_from:
  fixes data :: "'a::len word list" and ret :: "'b::len word"
  assumes "w \<le> N div LENGTH('a)" "off = w * LENGTH('a)"
  shows "bit (convert_from N data w off ret) n
     = (bit ret n \<or> (off \<le> n \<and> n < N \<and> n < LENGTH('b) \<and> op_index data n))"
  using assms
proof (induction N data w off ret arbitrary: n rule: convert_from.induct)
  case (1 N data w off ret)
  note off = \<open>off = w * LENGTH('a)\<close>
  show ?case
  proof (cases "w < N div LENGTH('a) \<and> off < LENGTH('b)")
    case True
    let ?ret' = "handle_word off (data ! w) ret :: 'b word"
    have step: "convert_from N data w off ret
        = convert_from N data (Suc w) (off + LENGTH('a)) ?ret'"
      using True by (subst convert_from.simps) (simp add: NFullyUsedWords_def TBits_def)
    have IH: "bit (convert_from N data (Suc w) (off + LENGTH('a)) ?ret') n
        = (bit ?ret' n \<or> (off + LENGTH('a) \<le> n \<and> n < N \<and> n < LENGTH('b) \<and> op_index data n))"
      using "1.IH" [of n] True off by (simp add: NFullyUsedWords_def TBits_def)
    have full: "Suc w * LENGTH('a) \<le> N"
    proof -
      from True have "Suc w * LENGTH('a) \<le> N div LENGTH('a) * LENGTH('a)"
        by (intro mult_le_mono1) simp
      also have "\<dots> \<le> N" by simp
      finally show ?thesis .
    qed
    have word: "(off \<le> n \<and> n < LENGTH('b) \<and> bit (data ! w) (n - off))
        = (off \<le> n \<and> n < off + LENGTH('a) \<and> n < LENGTH('b) \<and> op_index data n)"
    proof (cases "off \<le> n \<and> n < off + LENGTH('a)")
      case True
      then show ?thesis using op_index_in_word [of w n data] off by auto
    next
      case False
      then have "off \<le> n \<Longrightarrow> \<not> bit (data ! w) (n - off)"
        using bit_imp_le_length [of "data ! w" "n - off"] by auto
      with False show ?thesis by auto
    qed
    show ?thesis
      unfolding step IH bit_handle_word word using full off by auto
  next
    case False
    show ?thesis
    proof (cases "off < LENGTH('b)")
      case ge: False
      have "convert_from N data w off ret = ret"
        using False ge by (subst convert_from.simps) (auto simp add: NFullyUsedWords_def TBits_def)
      with ge show ?thesis by auto
    next
      case True
      with False "1.prems" have w: "w = N div LENGTH('a)" by simp
      show ?thesis
      proof (cases "N mod LENGTH('a) = 0")
        case z: True
        then have "N = off" using w off by (metis div_mult_mod_eq add.right_neutral)
        moreover have "convert_from N data w off ret = ret"
          using z w by (subst convert_from.simps) (simp add: NFullyUsedWords_def TBits_def LastWordMask_eq_0)
        ultimately show ?thesis by auto
      next
        case nz: False
        have step: "convert_from N data w off ret
          = handle_word off (data ! w AND LastWordMask N) ret"
          using nz True w
          by (subst convert_from.simps, unfold NWords_last [OF nz])
             (simp add: NFullyUsedWords_def TBits_def LastWordMask_eq_0)
        have N: "N = off + N mod LENGTH('a)" using w off by simp
        have word: "(off \<le> n \<and> n < LENGTH('b) \<and> bit (data ! w AND LastWordMask N) (n - off))
            = (off \<le> n \<and> n < N \<and> n < LENGTH('b) \<and> op_index data n)"
        proof (cases "off \<le> n \<and> n < N")
          case True
          then have "n < Suc w * LENGTH('a)" using N off
            by (metis add_less_cancel_left less_trans mod_less_divisor len_gt_0 mult_Suc add.commute)
          with True have "op_index data n = bit (data ! w) (n - off)"
            using op_index_in_word [of w n data] off by simp
          moreover have "n - off < N mod LENGTH('a)" using True N by linarith
          ultimately show ?thesis using True by (simp add: bit_and_iff bit_LastWordMask)
        next
          case False
          then have "off \<le> n \<Longrightarrow> \<not> n - off < N mod LENGTH('a)" using N by linarith
          with False show ?thesis by (auto simp add: bit_and_iff bit_LastWordMask)
        qed
        show ?thesis unfolding step bit_handle_word word by simp
      qed
    qed
  qed
qed

lemma bit_do_int_convert:
  fixes data :: "'a::len word list"
  shows "bit (do_int_convert N data :: 'b::len word) n = (n < N \<and> n < LENGTH('b) \<and> op_index data n)"
proof (cases "N = 0")
  case True
  then show ?thesis by (simp add: do_int_convert_def)
next
  case False
  then show ?thesis
    using bit_convert_from [of 0 N 0 data "0 :: 'b word" n]
    by (simp add: do_int_convert_def)
qed

lemma bits_value_horner:
  "bits_value N data = horner_sum of_bool 2 (map (op_index data) [0..<N])"
  by (simp add: bits_value_def horner_sum_eq_sum atLeast0LessThan)

lemma bit_bits_value: "bit (bits_value N data) n = (n < N \<and> op_index data n)"
  by (auto simp add: bits_value_horner bit_horner_sum_bit_iff)

lemma unat_do_int_convert:
  fixes data :: "'a::len word list"
  assumes "N \<le> LENGTH('b::len)"
  shows "unat (do_int_convert N data :: 'b word) = bits_value N data"
proof (rule bit_eqI)
  fix n
  show "bit (unat (do_int_convert N data :: 'b word)) n = bit (bits_value N data) n"
    using assms by (auto simp: bit_unsigned_iff bit_do_int_convert bit_bits_value)
qed

subsection \<open>Every operation keeps the unused bits zero\<close>

lemma for_loop_invariant:
  assumes "P s" "\<And>k s. i \<le> k \<Longrightarrow> k < n \<Longrightarrow> P s \<Longrightarrow> P (body k s)"
  shows "P (for_loop i n body s)"
  using assms
proof (induction i n body s rule: for_loop.induct)
  case (1 i n body s)
  show ?case
  proof (cases "i < n")
    case True
    have "P (for_loop (Suc i) n body (body i s))"
    proof (rule "1.IH" [OF True])
      show "P (body i s)" using "1.prems" True by simp
      fix k s assume "Suc i \<le> k" "k < n" "P s"
      then show "P (body k s)" using "1.prems"(2) [of k s] by simp
    qed
    with True show ?thesis by (simp add: for_loop_step)
  next
    case False
    with "1.prems"(1) show ?thesis by simp
  qed
qed

lemma unused_bits_zeroI:
  fixes d :: "'a::len word list"
  assumes "length d = NWords TYPE('a) N"
    and "\<And>p. N \<le> p \<Longrightarrow> p < NWords TYPE('a) N * LENGTH('a) \<Longrightarrow> \<not> op_index d p"
  shows "unused_bits_zero N d"
  using assms by (simp add: unused_bits_zero_def TBits_def)

lemma unused_bits_zeroD:
  fixes d :: "'a::len word list"
  assumes "unused_bits_zero N d"
  shows "length d = NWords TYPE('a) N"
    and "N \<le> p \<Longrightarrow> p < NWords TYPE('a) N * LENGTH('a) \<Longrightarrow> \<not> op_index d p"
  using assms by (simp_all add: unused_bits_zero_def TBits_def)

lemma unused_bits_zero_compact_bitset: "unused_bits_zero N (compact_bitset N)"
  by (rule unused_bits_zeroI) (simp_all add: op_index_compact_bitset)

lemma unused_bits_zero_op_index_assign:
  fixes d :: "'a::len word list"
  assumes "unused_bits_zero N d" "pos < N"
  shows "unused_bits_zero N (op_index_assign d pos b)"
proof (rule unused_bits_zeroI)
  show "length (op_index_assign d pos b) = NWords TYPE('a) N"
    using unused_bits_zeroD(1) [OF assms(1)] by simp
next
  fix p assume p: "N \<le> p" "p < NWords TYPE('a) N * LENGTH('a)"
  have "pos div LENGTH('a) < length d"
    using unused_bits_zeroD(1) [OF assms(1)] assms(2) by (simp add: NWords_index)
  then have "op_index (op_index_assign d pos b) p = op_index d p"
    using p(1) assms(2) by (simp add: op_index_op_index_assign)
  with unused_bits_zeroD(2) [OF assms(1) p] show "\<not> op_index (op_index_assign d pos b) p"
    by simp
qed

lemma ref_flip_op_index_assign:
  fixes d :: "'a::len word list"
  shows "ref_flip d (make_ref TYPE('a) pos) = op_index_assign d pos (\<not> op_index d pos)"
  by (simp add: ref_flip_def op_index_assign_def op_index_def)

lemma unused_bits_zero_ull_loop:
  fixes d :: "'a::len word list"
  assumes "unused_bits_zero N d"
  shows "unused_bits_zero N (ull_loop N val d)"
  using assms
proof (induction N val d rule: ull_loop.induct)
  case (1 N val d)
  show ?case
  proof (cases "val = 0")
    case True
    with "1.prems" show ?thesis by (subst ull_loop.simps) simp
  next
    case False
    from ffs_lowest [OF False] obtain k where k: "nat (ffs val - 1) = k" "k < 64" by auto
    show ?thesis
    proof (cases "64 > N \<and> k \<ge> N")
      case True
      with False "1.prems" k show ?thesis by (subst ull_loop.simps) simp
    next
      case go: False
      with k have kN: "k < N" by auto
      have "unused_bits_zero N (ull_loop N (val AND NOT (push_bit k 1)) (op_index_assign d k True))"
        using "1.IH" [OF False] kN k(1) unused_bits_zero_op_index_assign [OF "1.prems" kN]
        by (simp del: push_bit_of_1)
      moreover have "ull_loop N val d
          = ull_loop N (val AND NOT (push_bit k 1)) (op_index_assign d k True)"
        using False kN k(1) by (subst ull_loop.simps) (simp del: push_bit_of_1)
      ultimately show ?thesis by simp
    qed
  qed
qed

lemma unused_bits_zero_string_loop:
  fixes d :: "'a::len word list"
  assumes "unused_bits_zero N d" "string_loop N str n zero one i j d = Inr x"
  shows "unused_bits_zero N x"
  using assms
proof (induction N str n zero one i j d rule: string_loop.induct)
  case (1 N str n zero one i j d)
  show ?case
  proof (cases "i < n \<and> j < N")
    case True
    show ?thesis
    proof (cases "str ! i = one")
      case one: True
      have "string_loop N str n zero one i j d
          = string_loop N str n zero one (Suc i) (Suc j) (op_index_assign d j True)"
        using True one by (subst string_loop.simps) simp
      with "1.prems" "1.IH"(1) [OF True refl one] True one
        unused_bits_zero_op_index_assign [OF "1.prems"(1), of j True]
      show ?thesis by simp
    next
      case False
      show ?thesis
      proof (cases "str ! i = zero")
        case z: True
        have "string_loop N str n zero one i j d
          = string_loop N str n zero one (Suc i) (Suc j) d"
          using True False z by (subst string_loop.simps) simp
        with "1.prems" "1.IH"(2) [OF True refl False z] show ?thesis by simp
      next
        case nz: False
        have "string_loop N str n zero one i j d = Inl InvalidArgument"
          using True False nz by (subst string_loop.simps) simp
        with "1.prems" show ?thesis by simp
      qed
    qed
  next
    case False
    then have "string_loop N str n zero one i j d = Inr d"
      by (subst string_loop.simps) auto
    with "1.prems" show ?thesis by simp
  qed
qed

lemma unused_bits_zero_last_word:
  fixes d :: "'a::len word list"
  assumes "length d = NWords TYPE('a) N"
    and "N mod LENGTH('a) \<noteq> 0 \<Longrightarrow> d ! (N div LENGTH('a)) AND NOT (LastWordMask N) = 0"
  shows "unused_bits_zero N d"
proof (rule unused_bits_zeroI [OF assms(1)])
  fix p assume p: "N \<le> p" "p < NWords TYPE('a) N * LENGTH('a)"
  show "\<not> op_index d p"
  proof (cases "N mod LENGTH('a) = 0")
    case True
    with p NWords_full [OF True] show ?thesis by simp
  next
    case False
    from p(2) have "p div LENGTH('a) < NWords TYPE('a) N" by (simp add: less_mult_imp_div_less)
    then have "p div LENGTH('a) \<le> N div LENGTH('a)"
      using False by (simp add: NWords_def NFullyUsedWords_def NBitsRem_def TBits_def)
    moreover have "N div LENGTH('a) \<le> p div LENGTH('a)" using p(1) by (rule div_le_mono)
    ultimately have d: "p div LENGTH('a) = N div LENGTH('a)" by simp
    then have m: "\<not> p mod LENGTH('a) < N mod LENGTH('a)"
      using p(1) by (metis add_less_cancel_left div_mult_mod_eq not_less)
    from assms(2) [OF False]
    have "\<not> bit (d ! (N div LENGTH('a)) AND NOT (LastWordMask N)) (p mod LENGTH('a))" by simp
    with m d show ?thesis by (simp add: op_index_bit bit_and_iff bit_not_iff bit_LastWordMask)
  qed
qed

lemma NFullyUsedWords_less_NWords:
  "N mod LENGTH('a::len) \<noteq> 0 \<Longrightarrow> NFullyUsedWords TYPE('a) N < NWords TYPE('a) N"
  by (simp add: NWords_def NBitsRem_def TBits_def)

lemma mask_and_not_mask: "(m :: 'a::len word) AND NOT m = 0" "(a AND m) AND NOT m = 0"
  by (simp_all add: bit_eq_iff bit_and_iff bit_not_iff)

lemma unused_bits_zero_set_all:
  fixes d :: "'a::len word list"
  assumes "length d = NWords TYPE('a) N"
  shows "unused_bits_zero N (set_all N d)"
proof -
  let ?d' = "for_loop 0 (NFullyUsedWords TYPE('a) N) (\<lambda>w d. d[w := AllMask]) d"
  have l: "length ?d' = NWords TYPE('a) N"
    by (rule for_loop_invariant [where P = "\<lambda>d. length d = NWords TYPE('a) N"]) (simp_all add: assms)
  show ?thesis
  proof (rule unused_bits_zero_last_word)
    show "length (set_all N d) = NWords TYPE('a) N" using l by (simp add: set_all_def Let_def)
  next
    assume nz: "N mod LENGTH('a) \<noteq> 0"
    then have "set_all N d ! (N div LENGTH('a)) = LastWordMask N"
      using l NFullyUsedWords_less_NWords [OF nz]
      by (simp add: set_all_def Let_def LastWordMask_eq_0 NFullyUsedWords_def TBits_def)
    then show "set_all N d ! (N div LENGTH('a)) AND NOT (LastWordMask N) = 0"
      by (simp add: mask_and_not_mask)
  qed
qed

lemma unused_bits_zero_flip_all:
  fixes d :: "'a::len word list"
  assumes "length d = NWords TYPE('a) N"
  shows "unused_bits_zero N (flip_all N d)"
proof -
  let ?d' = "for_loop 0 (NFullyUsedWords TYPE('a) N) (\<lambda>w d. d[w := NOT (d ! w)]) d"
  have l: "length ?d' = NWords TYPE('a) N"
    by (rule for_loop_invariant [where P = "\<lambda>d. length d = NWords TYPE('a) N"]) (simp_all add: assms)
  show ?thesis
  proof (rule unused_bits_zero_last_word)
    show "length (flip_all N d) = NWords TYPE('a) N" using l by (simp add: flip_all_def Let_def)
  next
    assume nz: "N mod LENGTH('a) \<noteq> 0"
    then have "flip_all N d ! (N div LENGTH('a))
        = NOT (?d' ! (N div LENGTH('a))) AND LastWordMask N"
      using l NFullyUsedWords_less_NWords [OF nz]
      by (simp add: flip_all_def Let_def LastWordMask_eq_0 NFullyUsedWords_def TBits_def)
    then show "flip_all N d ! (N div LENGTH('a)) AND NOT (LastWordMask N) = 0"
      by (simp add: mask_and_not_mask)
  qed
qed

lemma unused_bits_zero_op_assign:
  "unused_bits_zero N x \<Longrightarrow> unused_bits_zero N y \<Longrightarrow> unused_bits_zero N (op_assign N x y)"
  by (auto simp: op_assign_def)

lemma length_zero_capacity: "NWords TYPE('a::len) 0 = 0"
  by (simp add: NWords_def NFullyUsedWords_def NBitsRem_def)

lemma unused_bits_zero_copy_construct:
  fixes x uninit :: "'a::len word list"
  assumes "unused_bits_zero N x" "length uninit = NWords TYPE('a) N"
  shows "unused_bits_zero N (copy_construct N uninit x)"
proof (cases "N > 0")
  case True
  with assms show ?thesis by (simp add: copy_construct_def op_assign_def)
next
  case False
  with assms(2) have "uninit = compact_bitset N"
    by (simp add: compact_bitset_def length_zero_capacity)
  with False show ?thesis
    by (simp add: copy_construct_def op_assign_def unused_bits_zero_compact_bitset)
qed

lemma length_bit_loop:
  fixes uninit :: "'a::len word list"
  shows "length (for_loop 0 N (\<lambda>i ret. op_index_assign ret i (g i)) uninit) = length uninit"
  by (rule for_loop_invariant [where P = "\<lambda>d. length d = length uninit"]) simp_all

lemma unused_bits_zero_binary:
  fixes uninit :: "'a::len word list"
  assumes "length uninit = NWords TYPE('a) N"
  shows "unused_bits_zero N (op_and N uninit x y)"
    and "unused_bits_zero N (op_or N uninit x y)"
    and "unused_bits_zero N (op_xor N uninit x y)"
  unfolding op_and_def op_or_def op_xor_def
  by (rule unused_bits_zero_mask_last_word, simp add: length_bit_loop assms)+

lemma unused_bits_zero_extract_loop:
  fixes x :: "'a::len word list"
  assumes "unused_bits_zero N x"
  shows "unused_bits_zero N (snd (extract_loop N zero one i is x))"
  using assms
proof (induction N zero one i "is" x rule: extract_loop.induct)
  case (1 N zero one i "is" x)
  show ?case
  proof (cases "i < N \<and> \<not> is_eof is \<and> is_good is
      \<and> \<not> (to_char_type (snd (is_peek is)) \<noteq> one \<and> to_char_type (snd (is_peek is)) \<noteq> zero)")
    case True
    let ?ch = "to_char_type (snd (is_peek is))"
    let ?is1 = "fst (is_peek is)"
    let ?ch2 = "case snd (is_get ?is1) of None \<Rightarrow> ?ch | Some c \<Rightarrow> c"
    have step: "extract_loop N zero one i is x
        = extract_loop N zero one (Suc i) (fst (is_get ?is1)) (op_index_assign x i (?ch2 = one))"
      using True by (subst extract_loop.simps) (auto simp: Let_def)
    have "unused_bits_zero N (op_index_assign x i (?ch2 = one))"
      using "1.prems" True by (simp add: unused_bits_zero_op_index_assign)
    then have "unused_bits_zero N (snd (extract_loop N zero one (Suc i) (fst (is_get ?is1))
        (op_index_assign x i (?ch2 = one))))"
      using "1.IH" [OF _ _ refl refl _ refl refl] True by simp
    then show ?thesis unfolding step .
  next
    case False
    then have "snd (extract_loop N zero one i is x) = x"
      by (subst extract_loop.simps) (auto simp: Let_def)
    with "1.prems" show ?thesis by simp
  qed
qed

lemma reachable_unused_bits_zero:
  fixes x :: "'a::len word list"
  assumes "x \<in> reachable N"
  shows "unused_bits_zero N x"
  using assms
proof (induction rule: reachable.induct)
  case default_ctor
  show ?case by (rule unused_bits_zero_compact_bitset)
next
  case (ull_ctor val)
  show ?case unfolding compact_bitset_ull_def
    by (rule unused_bits_zero_ull_loop [OF unused_bits_zero_compact_bitset])
next
  case (string_ctor str pos n zero one x)
  then show ?case
    by (auto simp: compact_bitset_string_def split: if_splits
        intro: unused_bits_zero_string_loop [OF unused_bits_zero_compact_bitset])
next
  case (cstr_ctor chars n zero one x)
  then show ?case
    by (auto simp: compact_bitset_cstr_def compact_bitset_string_def split: if_splits
        intro: unused_bits_zero_string_loop [OF unused_bits_zero_compact_bitset])
next
  case (copy_ctor x uninit)
  then show ?case by (simp add: unused_bits_zero_copy_construct)
next
  case (assign x y)
  then show ?case by (simp add: unused_bits_zero_op_assign)
next
  case (index_assign x pos b)
  then show ?case by (simp add: unused_bits_zero_op_index_assign)
next
  case (index_flip x pos)
  then show ?case by (simp add: ref_flip_op_index_assign unused_bits_zero_op_index_assign)
next
  case (set_bit x pos v y)
  then show ?case
    by (auto simp: set_pos_def throw_if_out_of_range_def split: if_splits
        intro: unused_bits_zero_op_index_assign)
next
  case (reset_bit x pos y)
  then show ?case
    by (auto simp: reset_pos_def throw_if_out_of_range_def split: if_splits
        intro: unused_bits_zero_op_index_assign)
next
  case (flip_bit x pos y)
  then show ?case
    by (auto simp: flip_pos_def throw_if_out_of_range_def ref_flip_op_index_assign
        split: if_splits intro: unused_bits_zero_op_index_assign)
next
  case (set_bulk x)
  then show ?case by (simp add: unused_bits_zero_set_all unused_bits_zeroD(1))
next
  case (reset_bulk x)
  then show ?case
    by (simp add: reset_all_def unused_bits_zero_op_assign unused_bits_zero_compact_bitset)
next
  case (flip_bulk x)
  then show ?case by (simp add: unused_bits_zero_flip_all unused_bits_zeroD(1))
next
  case (and_op x y uninit)
  then show ?case by (simp add: unused_bits_zero_binary)
next
  case (or_op x y uninit)
  then show ?case by (simp add: unused_bits_zero_binary)
next
  case (xor_op x y uninit)
  then show ?case by (simp add: unused_bits_zero_binary)
next
  case (and_assign x y uninit)
  then show ?case
    by (simp add: op_and_assign_def unused_bits_zero_op_assign unused_bits_zero_binary)
next
  case (or_assign x y uninit)
  then show ?case
    by (simp add: op_or_assign_def unused_bits_zero_op_assign unused_bits_zero_binary)
next
  case (xor_assign x y uninit)
  then show ?case
    by (simp add: op_xor_assign_def unused_bits_zero_op_assign unused_bits_zero_binary)
next
  case (not_op x uninit)
  then show ?case
    by (simp add: op_not_def unused_bits_zero_flip_all unused_bits_zero_copy_construct
        unused_bits_zeroD(1))
next
  case (shl_op x uninit shift)
  then show ?case by (simp add: unused_bits_zero_op_shl)
next
  case (shr_op x uninit shift)
  then show ?case by (simp add: unused_bits_zero_op_shr)
next
  case (shl_assign x uninit shift)
  then show ?case
    by (simp add: op_shl_assign_def unused_bits_zero_op_assign unused_bits_zero_op_shl)
next
  case (shr_assign x uninit shift)
  then show ?case
    by (simp add: op_shr_assign_def unused_bits_zero_op_assign unused_bits_zero_op_shr)
next
  case (stream_extract x "is" is' y)
  have "unused_bits_zero N (reset_all N x)"
    using stream_extract.IH
    by (simp add: reset_all_def unused_bits_zero_op_assign unused_bits_zero_compact_bitset)
  from unused_bits_zero_extract_loop [OF this, of "CHR ''0''" "CHR ''1''" 0 "is"] stream_extract.hyps(2)
  show ?case by (simp add: op_extract_def)
qed

lemma length_word_bytes [simp]: "length (word_bytes (w :: 'a::len word)) = LENGTH('a) div 8"
  by (simp add: word_bytes_def)

lemma concat_nth_uniform:
  assumes "\<forall>y \<in> set ys. length y = m" "k < length ys * m"
  shows "concat ys ! k = ys ! (k div m) ! (k mod m)"
  using assms
proof (induction ys arbitrary: k)
  case Nil
  then show ?case by simp
next
  case (Cons y ys)
  then have m: "m > 0" by (cases m) auto
  show ?case
  proof (cases "k < m")
    case True
    with Cons.prems show ?thesis by (simp add: nth_append)
  next
    case False
    then have km: "k div m = Suc ((k - m) div m)" "(k - m) mod m = k mod m"
      using m by (simp_all add: le_div_geq le_mod_geq)
    from False Cons.prems have "k - m < length ys * m" by auto
    with Cons.IH [of "k - m"] Cons.prems(1)
    have "concat ys ! (k - m) = ys ! ((k - m) div m) ! ((k - m) mod m)" by simp
    with False Cons.prems(1) km show ?thesis
      by (simp add: nth_append)
  qed
qed

lemma length_bits: "length (bits (x :: 'a::len word list)) = bits_size x"
proof -
  have "\<forall>y \<in> set (map word_bytes x). length y = LENGTH('a) div 8" by simp
  then have "length (concat (map word_bytes x)) = length (map word_bytes x) * (LENGTH('a) div 8)"
    by (induction x) simp_all
  then show ?thesis by (simp add: bits_def bits_size_def)
qed

lemma bit_bits:
  fixes x :: "'a::len word list"
  assumes "8 dvd LENGTH('a)" "p < 8 * bits_size x"
  shows "bit (bits x ! (p div 8)) (p mod 8) = op_index x p"
proof -
  define m where "m = LENGTH('a) div 8"
  from assms(1) have L: "LENGTH('a) = 8 * m" by (simp add: m_def)
  from assms(2) have k: "p div 8 < length x * m"
    by (simp add: bits_size_def m_def less_mult_imp_div_less mult.commute)
  then have m0: "m > 0" by (cases m) auto
  have w: "p div 8 div m < length x"
    using k by (simp add: less_mult_imp_div_less)
  have j: "p div 8 mod m < m" using m0 by simp
  have "bits x ! (p div 8) = map word_bytes x ! (p div 8 div m) ! (p div 8 mod m)"
    unfolding bits_def using k by (intro concat_nth_uniform) (simp_all add: m_def)
  also have "\<dots> = word_bytes (x ! (p div 8 div m)) ! (p div 8 mod m)"
    using w by simp
  also have "\<dots> = ucast (drop_bit (8 * (p div 8 mod m)) (x ! (p div 8 div m)))"
    using j by (simp add: word_bytes_def m_def)
  finally have "bit (bits x ! (p div 8)) (p mod 8)
      = bit (x ! (p div 8 div m)) (8 * (p div 8 mod m) + p mod 8)"
    by (simp add: bit_ucast_iff bit_drop_bit_eq)
  moreover have "p div 8 div m = p div LENGTH('a)"
    unfolding L by (simp add: div_mult2_eq)
  moreover have "8 * (p div 8 mod m) + p mod 8 = p mod LENGTH('a)"
    unfolding L by (simp add: mod_mult2_eq)
  ultimately show ?thesis by (simp add: op_index_bit)
qed

subsection \<open>Construction from a string, bit by bit\<close>


text \<open>
  The number of characters the loop of the constructor reads when none is rejected: \<open>i\<close>
  runs from \<open>pos\<close> to \<open>min(n, str.size())\<close>, and \<open>j\<close> stays below \<open>N\<close>.
\<close>

definition copied_count :: "nat \<Rightarrow> string \<Rightarrow> nat \<Rightarrow> nat \<Rightarrow> nat" where
  "copied_count N str pos n = min (min n (length str) - pos) N"


text \<open>
  The count of the code against \<open>min(n, N, str.size() - pos)\<close>, the count of a
  substring of \<open>n\<close> characters from \<open>pos\<close>: the same for \<open>pos = 0\<close> and for \<open>n\<close> reaching
  the end of the string, smaller for a proper substring that starts after the first
  character.
\<close>

lemma copied_count_agrees:
  "pos = 0 \<or> length str \<le> n \<Longrightarrow>
     copied_count N str pos n = min n (min N (length str - pos))"
  by (auto simp: copied_count_def)

lemma copied_count_short:
  "0 < pos \<Longrightarrow> pos \<le> n \<Longrightarrow> n < length str \<Longrightarrow> n - pos < N \<Longrightarrow>
     copied_count N str pos n < min n (min N (length str - pos))"
  by (auto simp: copied_count_def)

subsection \<open>Stream extraction from a stream that is good\<close>

text \<open>
  On a stream whose three state bits are clear, extraction consumes the longest prefix
  of zero and one characters, at most \<open>N\<close> of them. The next two definitions name that
  number; the lemmas state what \<open>operator>>\<close> returns then.
\<close>

definition bit_char :: "char \<Rightarrow> bool" where
  "bit_char c = (c = CHR ''1'' \<or> c = CHR ''0'')"

definition consumed_count :: "nat \<Rightarrow> string \<Rightarrow> nat" where
  "consumed_count N s = min N (length (takeWhile bit_char s))"

lemma eof_char_not_bit: "to_char_type None \<noteq> CHR ''1''" "to_char_type None \<noteq> CHR ''0''"
  by (simp_all add: to_char_type_def char_of_def)

lemma extract_loop_good:
  fixes x :: "'a::len word list"
  assumes "is_good is" "length x = NWords TYPE('a) N"
  shows "\<exists>is' x'. extract_loop N CHR ''0'' CHR ''1'' i is x = (is', x') \<and>
     buf is' = drop (consumed_count (N - i) (buf is)) (buf is) \<and>
     failbit is' = (i = 0 \<and> i < N \<and> consumed_count (N - i) (buf is) = 0) \<and>
     eofbit is' = (consumed_count (N - i) (buf is) < N - i
                   \<and> consumed_count (N - i) (buf is) = length (buf is)) \<and>
     \<not> badbit is' \<and> length x' = length x \<and>
     (\<forall>q. op_index x' q = (if i \<le> q \<and> q < i + consumed_count (N - i) (buf is)
                            then buf is ! (q - i) = CHR ''1'' else op_index x q))"
  using assms
proof (induction N "CHR ''0''" "CHR ''1''" i "is" x rule: extract_loop.induct)
  case (1 N i "is" x)
  note good = \<open>is_good is\<close>
  then have flags: "\<not> eofbit is" "\<not> failbit is" "\<not> badbit is" "\<not> is_eof is"
    by (simp_all add: is_good_def is_eof_def)
  show ?case
  proof (cases "i < N")
    case False
    then have "extract_loop N CHR ''0'' CHR ''1'' i is x = (is, x)"
      by (subst extract_loop.simps) simp
    moreover from False have "consumed_count (N - i) (buf is) = 0" by (simp add: consumed_count_def)
    ultimately show ?thesis using flags False by auto
  next
    case True
    show ?thesis
    proof (cases "buf is")
      case Nil
      then have pk: "is_peek is = (is\<lparr>eofbit := True\<rparr>, None)"
        using good by (simp add: is_peek_def)
      have "extract_loop N CHR ''0'' CHR ''1'' i is x
          = ((if i = 0 then is_setstate_failbit (is\<lparr>eofbit := True\<rparr>) else is\<lparr>eofbit := True\<rparr>), x)"
        using True flags good pk
        by (subst extract_loop.simps) (simp add: Let_def eof_char_not_bit)
      moreover have "consumed_count (N - i) (buf is) = 0" using Nil by (simp add: consumed_count_def)
      ultimately show ?thesis using flags True Nil by (auto simp: is_setstate_failbit_def)
    next
      case (Cons c cs)
      then have pk: "is_peek is = (is, Some c)" using good by (simp add: is_peek_def)
      show ?thesis
      proof (cases "bit_char c")
        case False
        then have "extract_loop N CHR ''0'' CHR ''1'' i is x
          = ((if i = 0 then is_setstate_failbit is else is), x)"
          using True flags good pk
          by (subst extract_loop.simps) (simp add: Let_def to_char_type_def bit_char_def)
        moreover have "consumed_count (N - i) (buf is) = 0"
          using Cons False by (simp add: consumed_count_def)
        ultimately show ?thesis using flags True Cons by (auto simp: is_setstate_failbit_def)
      next
        case vc: True
        let ?is2 = "is\<lparr>buf := cs\<rparr>"
        let ?x2 = "op_index_assign x i (c = CHR ''1'')"
        have gt: "is_get is = (?is2, Some c)" using good Cons by (simp add: is_get_def)
        have g2: "is_good ?is2" using good by (simp add: is_good_def)
        have step: "extract_loop N CHR ''0'' CHR ''1'' i is x
          = extract_loop N CHR ''0'' CHR ''1'' (Suc i) ?is2 ?x2"
          using True flags good pk gt vc
          by (subst extract_loop.simps) (auto simp: Let_def to_char_type_def bit_char_def)
        have l2: "length ?x2 = NWords TYPE('a) N" using "1.prems" by simp
        have cc': "consumed_count (N - i) (c # cs) = Suc (consumed_count (N - Suc i) cs)"
          using True vc by (simp add: consumed_count_def)
        have cc: "consumed_count (N - i) (buf is) = Suc (consumed_count (N - Suc i) cs)"
          using True Cons vc by (simp add: consumed_count_def)
        have c1: "i < N \<and> \<not> is_eof is" using True flags by simp
        have c2: "\<not> \<not> is_good is" using good by simp
        have c5: "\<not> (to_char_type (snd (is_peek is)) \<noteq> CHR ''1''
            \<and> to_char_type (snd (is_peek is)) \<noteq> CHR ''0'')"
          using pk vc by (simp add: to_char_type_def bit_char_def)
        have b2: "buf ?is2 = cs" by simp
        note IH = "1.hyps" [OF c1 c2 refl refl c5 refl refl,
            unfolded pk gt fst_conv snd_conv option.case, OF g2 l2, unfolded b2]
        from IH have "\<exists>is' x'.
          extract_loop N CHR ''0'' CHR ''1'' (Suc i) ?is2 ?x2 = (is', x') \<and>
          buf is' = drop (consumed_count (N - Suc i) cs) cs \<and>
          \<not> failbit is' \<and>
          eofbit is' = (consumed_count (N - Suc i) cs < N - Suc i
                   \<and> consumed_count (N - Suc i) cs = length cs) \<and>
          \<not> badbit is' \<and> length x' = length x \<and>
          (\<forall>q. op_index x' q = (if Suc i \<le> q \<and> q < Suc i + consumed_count (N - Suc i) cs
                            then cs ! (q - Suc i) = CHR ''1'' else op_index ?x2 q))"
          by simp
        then obtain is' x' where r:
          "extract_loop N CHR ''0'' CHR ''1'' (Suc i) ?is2 ?x2 = (is', x')"
          "buf is' = drop (consumed_count (N - Suc i) cs) cs"
          "\<not> failbit is'"
          "eofbit is' = (consumed_count (N - Suc i) cs < N - Suc i
                   \<and> consumed_count (N - Suc i) cs = length cs)"
          "\<not> badbit is'" "length x' = length x"
          "\<And>q. op_index x' q = (if Suc i \<le> q \<and> q < Suc i + consumed_count (N - Suc i) cs
                            then cs ! (q - Suc i) = CHR ''1'' else op_index ?x2 q)"
          by blast
        have id: "i div LENGTH('a) < length x" using True "1.prems" by (simp add: NWords_index)
        have bits: "op_index x' q = (if i \<le> q \<and> q < i + consumed_count (N - i) (buf is)
                            then buf is ! (q - i) = CHR ''1'' else op_index x q)" for q
        proof (cases "q = i")
          case True
          then show ?thesis
            unfolding r(7) Cons cc' by (simp add: op_index_op_index_assign [OF id])
        next
          case False
          then have "i \<le> q \<Longrightarrow> (c # cs) ! (q - i) = cs ! (q - Suc i)"
            by (simp add: nth_Cons')
          with False show ?thesis
            unfolding r(7) Cons cc' by (auto simp: op_index_op_index_assign [OF id])
        qed
        have eofeq: "(consumed_count (N - Suc i) cs < N - Suc i \<and> consumed_count (N - Suc i) cs = length cs)
            = (consumed_count (N - i) (buf is) < N - i \<and> consumed_count (N - i) (buf is) = length (buf is))"
          unfolding Cons cc' using True by auto
        show ?thesis
          unfolding step r(1) using r(2,3,5,6) bits eofeq r(4) cc' Cons by simp
      qed
    qed
  qed
qed

lemma op_extract_good:
  fixes x :: "'a::len word list"
  assumes "is_good is" "length x = NWords TYPE('a) N"
  shows "\<exists>is' x'. op_extract N is x = (is', x') \<and>
     buf is' = drop (consumed_count N (buf is)) (buf is) \<and>
     failbit is' = (N > 0 \<and> consumed_count N (buf is) = 0) \<and>
     eofbit is' = (consumed_count N (buf is) < N \<and> consumed_count N (buf is) = length (buf is)) \<and>
     \<not> badbit is' \<and> length x' = NWords TYPE('a) N \<and>
     (\<forall>q<N. op_index x' q = (q < consumed_count N (buf is) \<and> buf is ! q = CHR ''1''))"
proof -
  have l: "length (reset_all N x) = NWords TYPE('a) N"
    using assms(2) by (simp add: reset_all_def op_assign_def)
  have z: "\<not> op_index (reset_all N x) q" if "q < N" for q
  proof -
    from that have "q < NWords TYPE('a) N * LENGTH('a)"
      using NWords_bound [where 'a='a, of N] by simp
    with that show ?thesis
      by (simp add: reset_all_def op_assign_def op_index_compact_bitset)
  qed
  from extract_loop_good [OF assms(1) l, of 0]
  obtain is' x' where r: "extract_loop N CHR ''0'' CHR ''1'' 0 is (reset_all N x) = (is', x')"
    "buf is' = drop (consumed_count (N - 0) (buf is)) (buf is)"
    "failbit is' = (0 = (0::nat) \<and> 0 < N \<and> consumed_count (N - 0) (buf is) = 0)"
    "eofbit is' = (consumed_count (N - 0) (buf is) < N - 0
       \<and> consumed_count (N - 0) (buf is) = length (buf is))"
    "\<not> badbit is'" "length x' = length (reset_all N x)"
    "\<forall>q. op_index x' q = (if 0 \<le> q \<and> q < 0 + consumed_count (N - 0) (buf is)
                            then buf is ! (q - 0) = CHR ''1'' else op_index (reset_all N x) q)"
    by blast
  have "\<forall>q<N. op_index x' q = (q < consumed_count N (buf is) \<and> buf is ! q = CHR ''1'')"
    using r(7) z by simp
  with r(1-6) l show ?thesis by (simp add: op_extract_def)
qed

subsection \<open>Hashing reads the raw words\<close>

text \<open>
  \<open>operator==\<close> masks the last word, \<open>hash_code\<close> does not. Two arrays that differ only
  in an unused bit (bit 15 at \<open>N = 11\<close>) compare equal and hash differently: equal hash
  codes for equal bitsets rest on the unused bits being zero.
\<close>

lemma hash_code_unmasked:
  "op_eq 11 [1025 :: 16 word] [33793] \<and> hash_code [1025 :: 16 word] \<noteq> hash_code [33793 :: 16 word]"
  by code_simp

section \<open>The claims\<close>

text \<open>
  Claim C8. At capacity \<open>N = 0\<close>, whatever the word type, \<open>all()\<close> returns true, \<open>any()\<close>
  returns false, \<open>none()\<close> returns true and \<open>count()\<close> returns 0.
\<close>

theorem zero_capacity:
  fixes data :: "'a::len word list"
  shows "all 0 data \<and> \<not> any 0 data \<and> none 0 data \<and> count 0 data = 0"
proof -
  have m: "(LastWordMask 0 :: 'a word) = 0" by (simp add: LastWordMask_eq_0)
  have f: "NFullyUsedWords TYPE('a) 0 = 0" by (simp add: NFullyUsedWords_def)
  have "all 0 data" unfolding all_def by (subst all_from.simps) (simp add: m f)
  moreover have "\<not> any 0 data" unfolding any_def by (subst any_from.simps) (simp add: m f)
  moreover have "count 0 data = 0" unfolding count_def by (simp add: m f)
  ultimately show ?thesis by (simp add: none_def)
qed

text \<open>
  Claim C7, as stated, ends with the example that for \<open>N = 11\<close>, after \<open>set(10)\<close> and
  \<open>set(0)\<close>, \<open>to_string()\<close> is \<open>10000000011\<close>. That string has a one at index 9, which was
  never set: the code returns something else.
\<close>

theorem to_string_scenario_A_counterexample: "scenario_A \<noteq> Inr ''10000000011''"
  by code_simp

text \<open>
  Claim C7, amended. \<open>to_string(zero, one)\<close> returns a string of exactly \<open>N\<close> characters
  whose character at position \<open>i\<close> is \<open>one\<close> if bit \<open>i\<close> is set and \<open>zero\<close> otherwise; for
  \<open>N = 11\<close>, after \<open>set(10)\<close> and \<open>set(0)\<close>, \<open>to_string()\<close> with the default characters is
  \<open>10000000001\<close>.
\<close>

theorem to_string_spec:
  "length (to_string N data zero one) = N \<and>
   (\<forall>i<N. to_string N data zero one ! i = (if op_index data i then one else zero)) \<and>
   scenario_A = Inr ''10000000001''"
  using to_string_nth [of N data zero one] scenario_A_value by simp

theorem to_string_spec_witness:
  "length (to_string 11 [1025 :: 16 word] CHR ''0'' CHR ''1'') = 11 \<and> (0::nat) < 11 \<and>
   to_string 11 [1025 :: 16 word] CHR ''0'' CHR ''1'' ! 0 = CHR ''1''"
  using to_string_spec [of 11 "[1025 :: 16 word]" "CHR ''0''" "CHR ''1''"]
  by (simp add: op_index_bit)

text \<open>
  Claim C10. For every pair of backing arrays, whatever their unused bits hold (they can
  be written through the mutable \<open>bits()\<close> view), \<open>x == y\<close> returns true if and only if
  \<open>x\<close> and \<open>y\<close> agree at every bit position \<open>i < N\<close>; for \<open>N = 0\<close> any two bitsets compare
  equal.
\<close>

theorem op_eq_spec:
  fixes x y :: "'a::len word list"
  shows "op_eq N x y = (\<forall>i<N. op_index x i = op_index y i) \<and> op_eq 0 x y"
  using eq_from_op_index [of 0 N x y] eq_from_op_index [of 0 0 x y] by (simp add: op_eq_def)

theorem op_eq_spec_witness:
  "op_eq 11 [1025 :: 16 word] [33793] \<and> (3::nat) < 11 \<and>
   op_index [1025 :: 16 word] 3 = op_index [33793 :: 16 word] 3 \<and>
   [1025 :: 16 word] \<noteq> [33793]"
proof -
  have e: "op_eq 11 [1025 :: 16 word] [33793]" by code_simp
  with op_eq_spec [of 11 "[1025 :: 16 word]" "[33793]"]
  have "\<forall>i<11. op_index [1025 :: 16 word] i = op_index [33793 :: 16 word] i" by simp
  then have "op_index [1025 :: 16 word] 3 = op_index [33793 :: 16 word] 3" by simp
  with e show ?thesis by simp
qed

text \<open>
  Claim C4. For every bitset \<open>x\<close> of capacity \<open>N\<close> and every shift amount \<open>s\<close>, whatever
  the uninitialised result object holds: bit \<open>i\<close> of \<open>x << s\<close> is bit \<open>i - s\<close> of \<open>x\<close> when
  \<open>i \<ge> s\<close> and 0 otherwise; bit \<open>i\<close> of \<open>x >> s\<close> is bit \<open>i + s\<close> of \<open>x\<close> when \<open>i + s < N\<close> and
  0 otherwise; for \<open>s \<ge> N\<close> both results are the all-zero bitset, the value of the
  default constructor.
\<close>

theorem shift_spec:
  fixes uninit x :: "'a::len word list"
  assumes "length uninit = NWords TYPE('a) N"
  shows "(\<forall>i<N. op_index (op_shl N uninit x s) i = (if i \<ge> s then op_index x (i - s) else False)) \<and>
         (\<forall>i<N. op_index (op_shr N uninit x s) i = (if i + s < N then op_index x (i + s) else False)) \<and>
         (s \<ge> N \<longrightarrow> op_shl N uninit x s = compact_bitset N \<and> op_shr N uninit x s = compact_bitset N)"
proof (intro conjI allI impI)
  fix i assume "i < N"
  then show "op_index (op_shl N uninit x s) i = (if i \<ge> s then op_index x (i - s) else False)"
    by (simp add: op_shl_bits(2) [OF assms])
next
  fix i assume "i < N"
  then show "op_index (op_shr N uninit x s) i = (if i + s < N then op_index x (i + s) else False)"
    by (simp add: op_shr_bits(2) [OF assms])
next
  assume "s \<ge> N"
  then show "op_shl N uninit x s = compact_bitset N"
    by (intro all_zero_eq_compact_bitset unused_bits_zero_op_shl assms)
       (simp add: op_shl_bits(2) [OF assms])
next
  assume "s \<ge> N"
  then show "op_shr N uninit x s = compact_bitset N"
    by (intro all_zero_eq_compact_bitset unused_bits_zero_op_shr assms)
       (simp add: op_shr_bits(2) [OF assms])
qed

theorem shift_spec_witness:
  "length [65535 :: 16 word] = NWords TYPE(16) 11 \<and> (2::nat) < 11 \<and> (11::nat) \<ge> 11 \<and>
   op_index (op_shl 11 [65535 :: 16 word] [1025] 2) 2 \<and>
   op_index (op_shr 11 [65535 :: 16 word] [1025] 2) 8 \<and>
   op_shl 11 [65535 :: 16 word] [1025] 11 = compact_bitset 11 \<and>
   op_shr 11 [65535 :: 16 word] [1025] 11 = compact_bitset 11"
proof -
  have h: "length [65535 :: 16 word] = NWords TYPE(16) 11"
    by (simp add: NWords_def NFullyUsedWords_def NBitsRem_def TBits_def)
  note a = shift_spec [OF h, of "[1025]" 2]
  note b = shift_spec [OF h, of "[1025]" 11]
  from a [THEN conjunct1, rule_format, of 2]
  have 1: "op_index (op_shl 11 [65535 :: 16 word] [1025] 2) 2"
    by (simp add: op_index_bit)
  from a [THEN conjunct2, THEN conjunct1, rule_format, of 8]
  have 2: "op_index (op_shr 11 [65535 :: 16 word] [1025] 2) 8"
    by (simp add: op_index_bit)
  from b [THEN conjunct2, THEN conjunct2]
  have 3: "op_shl 11 [65535 :: 16 word] [1025] 11 = compact_bitset 11 \<and>
           op_shr 11 [65535 :: 16 word] [1025] 11 = compact_bitset 11"
    by simp
  from h 1 2 3 show ?thesis by simp
qed

text \<open>
  Claim C5. \<open>to_ullong()\<close> raises \<open>Overflow\<close> if and only if \<open>N\<close> exceeds 64, the width of
  \<open>unsigned long long\<close>, and \<open>to_ulong()\<close> if and only if \<open>N\<close> exceeds the width of
  \<open>unsigned long\<close>; the test comes before any extraction. When \<open>N\<close> is at most the width,
  the call returns the number whose binary digits are the bits \<open>i < N\<close>, the sum of
  \<open>bit(i) * 2 ^ i\<close>. At \<open>N = 65\<close> the 64-bit conversion raises \<open>Overflow\<close>; at \<open>N = 64\<close> it
  returns the exact bit pattern.
\<close>

theorem int_convert_spec:
  fixes data :: "'a::len word list"
  shows "(to_ullong N data = Inl Overflow \<longleftrightarrow> N > 64) \<and>
     (N \<le> 64 \<longrightarrow> (\<exists>r. to_ullong N data = Inr r \<and> unat r = bits_value N data)) \<and>
     ((to_ulong N data :: error + 'l::len word) = Inl Overflow \<longleftrightarrow> N > LENGTH('l)) \<and>
     (N \<le> LENGTH('l) \<longrightarrow>
        (\<exists>r :: 'l word. to_ulong N data = Inr r \<and> unat r = bits_value N data)) \<and>
     to_ullong 65 data = Inl Overflow \<and>
     (\<exists>r. to_ullong 64 data = Inr r \<and> (\<forall>i<64. bit r i = op_index data i))"
proof -
  have 1: "(to_ullong N data = Inl Overflow) = (N > 64)"
    by (simp add: to_ullong_def)
  have 2: "N \<le> 64 \<longrightarrow> (\<exists>r. to_ullong N data = Inr r \<and> unat r = bits_value N data)"
    by (simp add: to_ullong_def unat_do_int_convert)
  have 3: "((to_ulong N data :: error + 'l word) = Inl Overflow) = (N > LENGTH('l))"
    by (simp add: to_ulong_def)
  have 4: "N \<le> LENGTH('l) \<longrightarrow>
        (\<exists>r :: 'l word. to_ulong N data = Inr r \<and> unat r = bits_value N data)"
    by (simp add: to_ulong_def unat_do_int_convert)
  have 5: "to_ullong 65 data = Inl Overflow"
    by (simp add: to_ullong_def)
  have 6: "\<exists>r. to_ullong 64 data = Inr r \<and> (\<forall>i<64. bit r i = op_index data i)"
    by (simp add: to_ullong_def bit_do_int_convert)
  from 1 2 3 4 5 6 show ?thesis by blast
qed

theorem int_convert_spec_witness:
  "(8::nat) \<le> 64 \<and> to_ullong 8 [176 :: 8 word] = Inr 176 \<and>
   to_ullong 65 [0 :: 64 word, 1] = Inl Overflow"
proof -
  note t = int_convert_spec [of 8 "[176 :: 8 word]", where 'l = 64]
  from t obtain r where r: "to_ullong 8 [176 :: 8 word] = Inr r"
    "unat r = bits_value 8 [176 :: 8 word]" by auto
  have "bits_value 8 [176 :: 8 word] = 176" by code_simp
  with r(2) have "r = 176" by (simp add: word_unat_eq_iff)
  with r(1) int_convert_spec [of 8 "[0 :: 64 word, 1]", where 'l = 64] show ?thesis by simp
qed

text \<open>
  Claim C1. For every capacity \<open>N\<close> and every bitset produced by a sequence of the
  operations (construction from nothing, an integer or a string; \<open>set\<close>, \<open>reset\<close> and \<open>flip\<close>
  of one bit or of all; AND, OR, XOR, binary and compound; NOT; both shifts; stream
  extraction), the array has \<open>NWords\<close> words and every bit position from \<open>N\<close> upwards in
  it is 0, also when read through the byte view \<open>bits()\<close> (for a word type of whole
  bytes, bit \<open>p\<close> is bit \<open>p mod 8\<close> of byte \<open>p div 8\<close>).
\<close>

theorem unused_bit_invariant:
  fixes x :: "'a::len word list"
  assumes "x \<in> reachable N"
  shows "unused_bits_zero N x \<and>
    (8 dvd LENGTH('a) \<longrightarrow> (\<forall>p \<in> {N..<8 * bits_size x}. \<not> bit (bits x ! (p div 8)) (p mod 8)))"
proof (intro conjI impI ballI)
  show inv: "unused_bits_zero N x" by (rule reachable_unused_bits_zero [OF assms])
  fix p assume d: "8 dvd LENGTH('a)" and p: "p \<in> {N..<8 * bits_size x}"
  then have "p < NWords TYPE('a) N * LENGTH('a)"
    using unused_bits_zeroD(1) [OF inv] by (auto simp: bits_size_def)
  with p unused_bits_zeroD(2) [OF inv, of p] have "\<not> op_index x p" by simp
  with bit_bits [OF d, of p x] p show "\<not> bit (bits x ! (p div 8)) (p mod 8)" by simp
qed

theorem unused_bit_invariant_witness:
  "flip_all 11 (compact_bitset 11 :: 16 word list) = [2047] \<and> (8::nat) dvd LENGTH(16) \<and>
   \<not> bit (bits (flip_all 11 (compact_bitset 11 :: 16 word list)) ! 1) 3"
proof -
  let ?x = "flip_all 11 (compact_bitset 11 :: 16 word list)"
  have r: "?x \<in> reachable 11"
    by (intro reachable.flip_bulk reachable.default_ctor)
  have d: "(8::nat) dvd LENGTH(16)" by simp
  have v: "?x = [2047]" by code_simp
  have "bits_size ?x = 2" unfolding v by (simp add: bits_size_def)
  then have "(11::nat) \<in> {11..<8 * bits_size ?x}" by simp
  with unused_bit_invariant [OF r] d
  have "\<not> bit (bits ?x ! (11 div 8)) (11 mod 8)" by blast
  with v d show ?thesis by simp
qed





text \<open>
  Claim C2 says that the constructor copies \<open>c = min(n, N, str.length() - pos)\<close>
  characters. The code at \<open>N = 8\<close>, \<open>str = "1111"\<close>, \<open>pos = 1\<close>, \<open>n = 2\<close>: there \<open>c = 2\<close> and
  \<open>str[pos + 1]\<close> is the one character, so bit 1 should be set; the constructor returns
  the bitset with bit 0 alone, having copied one character.
\<close>

theorem string_ctor_count_failing_input:
  "(compact_bitset_string 8 ''1111'' 1 2 CHR ''0'' CHR ''1'' :: error + 8 word list) = Inr [1] \<and>
   min 2 (min 8 (length ''1111'' - 1)) = (2::nat) \<and>
   ''1111'' ! (1 + 1) = CHR ''1'' \<and> \<not> op_index [1 :: 8 word] 1"
  by code_simp

text \<open>
  Claim C3 says that stream extraction sets the fail indicator whenever \<open>N > 0\<close> and no
  character was consumed. The code at \<open>N = 3\<close> on the stream holding \<open>10\<close>: the first
  extraction consumes both characters and meets the end of the input, which sets
  \<open>eofbit\<close>; a second extraction from the same stream consumes nothing, resets the
  target and leaves \<open>failbit\<close> clear.
\<close>

theorem stream_extract_failing_input:
  "op_extract 3 \<lparr>buf = ''10'', eofbit = False, failbit = False, badbit = False\<rparr> [5 :: 8 word]
     = (\<lparr>buf = '''', eofbit = True, failbit = False, badbit = False\<rparr>, [1]) \<and>
   op_extract 3 \<lparr>buf = '''', eofbit = True, failbit = False, badbit = False\<rparr> [1 :: 8 word]
     = (\<lparr>buf = '''', eofbit = True, failbit = False, badbit = False\<rparr>, [0])"
  by code_simp

end
